theory Spec2Isabelle
  imports Main "HOL-Library.AList"
begin

section \<open>Data model of the ECS engine\<close>

text \<open>
  Entities and component types are JavaScript numbers handed out by two counters that
  only count up from zero; both are modelled as natural numbers.
\<close>

type_synonym Entity = nat
type_synonym ComponentType = nat

text \<open>
  \<^verbatim>\<open>class Component<T>\<close>: a payload and a type tag. The engine never looks into
  the payload, it stores it and hands it back, so the payload type is a parameter; read
  \<open>'a\<close> as the reference to the payload object.
\<close>

record 'a Component =
  data :: 'a
  type :: ComponentType

text \<open>
  \<^verbatim>\<open>abstract class System\<close>. A system is an object: the key of the engine's
  \<open>systems\<close> map is its identity, kept here as \<open>sys_id\<close>. Its \<open>requiredComponents\<close>
  set is listed in insertion order. Its \<open>update\<close> method is supplied separately (see
  \<open>prog\<close> below), so that the engine state holds no functions.
\<close>

record System =
  sys_id :: nat
  requiredComponents :: "ComponentType list"

text \<open>
  The two errors the engine throws. The source throws \<open>Error\<close> objects that differ in
  their message only: "Entity e does not exist." and "Entity e does not have component
  t."; \<open>SystemError\<close> stands for anything else that a system's own code throws.
\<close>

datatype error =
    UnknownEntity Entity
  | MissingComponent Entity ComponentType
  | SystemError string

text \<open>
  \<^verbatim>\<open>class ECS\<close>. A JavaScript \<open>Map\<close> is an association list in insertion order
  with distinct keys (\<open>set\<close> on a present key replaces the value in place, on an absent key
  appends; \<open>delete\<close> removes the entry), a \<open>Set\<close> a list in insertion order. The two
  static counters are part of the state. \<open>start\<close> and \<open>delta\<close> are readings of
  \<open>Date.now()\<close>, integers in milliseconds.
\<close>

record 'a ECS =
  systems :: "(System \<times> Entity list) list"
  entities :: "(Entity \<times> (ComponentType \<times> 'a Component) list) list"
  start :: int
  delta :: int
  nextEntityID :: nat
  nextComponentType :: nat
  entitiesToDestroy :: "Entity list"

text \<open>\<open>new ECS()\<close> at clock reading \<open>now\<close>, the static counters being at \<open>eid\<close> and \<open>ct\<close>.\<close>

definition new_ECS :: "int \<Rightarrow> nat \<Rightarrow> nat \<Rightarrow> 'a ECS" where
  "new_ECS now eid ct =
     \<lparr>systems = [], entities = [], start = now, delta = 0,
      nextEntityID = eid, nextComponentType = ct, entitiesToDestroy = []\<rparr>"

subsection \<open>Sets of entities\<close>

definition set_add :: "Entity \<Rightarrow> Entity list \<Rightarrow> Entity list" where
  "set_add e es = (if e \<in> set es then es else es @ [e])"

definition set_delete :: "Entity \<Rightarrow> Entity list \<Rightarrow> Entity list" where
  "set_delete e es = removeAll e es"

section \<open>The operations\<close>

text \<open>\<open>ECS.registerComponent\<close>: the creator's type tag, and \<open>create\<close>.\<close>

definition registerComponent :: "'a ECS \<Rightarrow> ComponentType \<times> 'a ECS" where
  "registerComponent s =
     (nextComponentType s, s\<lparr>nextComponentType := nextComponentType s + 1\<rparr>)"

definition create :: "ComponentType \<Rightarrow> 'a \<Rightarrow> 'a Component" where
  "create t d = \<lparr>data = d, type = t\<rparr>"

definition addEntity :: "'a ECS \<Rightarrow> Entity \<times> 'a ECS" where
  "addEntity s =
     (let entity = nextEntityID s
      in (entity, s\<lparr>nextEntityID := nextEntityID s + 1,
                     entities := AList.update entity [] (entities s)\<rparr>))"

definition removeEntity :: "Entity \<Rightarrow> 'a ECS \<Rightarrow> 'a ECS" where
  "removeEntity entity s = s\<lparr>entitiesToDestroy := entitiesToDestroy s @ [entity]\<rparr>"

definition getComponents ::
  "Entity \<Rightarrow> 'a ECS \<Rightarrow> error + (ComponentType \<times> 'a Component) list" where
  "getComponents entity s =
     (case map_of (entities s) entity of
        None \<Rightarrow> Inl (UnknownEntity entity)
      | Some entityComponents \<Rightarrow> Inr entityComponents)"

definition getComponent :: "Entity \<Rightarrow> ComponentType \<Rightarrow> 'a ECS \<Rightarrow> error + 'a" where
  "getComponent entity t s =
     (case getComponents entity s of
        Inl err \<Rightarrow> Inl err
      | Inr entityComponents \<Rightarrow>
          (case map_of entityComponents t of
             None \<Rightarrow> Inl (MissingComponent entity t)
           | Some component \<Rightarrow> Inr (data component)))"

text \<open>The inner loop of \<open>updateEntitySystems\<close>, with its \<open>break\<close>.\<close>

fun hasAllRequired :: "ComponentType list \<Rightarrow> (ComponentType \<times> 'a Component) list \<Rightarrow> bool" where
  "hasAllRequired [] entityComponents = True"
| "hasAllRequired (componentType # rest) entityComponents =
     (if map_of entityComponents componentType = None then False
      else hasAllRequired rest entityComponents)"

text \<open>
  The outer loop of \<open>updateEntitySystems\<close> over the entries of \<open>systems\<close>: every
  iteration calls \<open>getComponents\<close>, which may throw, and then adds the entity to the
  system's set or deletes it from it.
\<close>

fun updateEntitySystems_loop ::
  "Entity \<Rightarrow> 'a ECS \<Rightarrow> (System \<times> Entity list) list \<Rightarrow> error + (System \<times> Entity list) list" where
  "updateEntitySystems_loop entity s [] = Inr []"
| "updateEntitySystems_loop entity s ((system, ents) # rest) =
     (case getComponents entity s of
        Inl err \<Rightarrow> Inl err
      | Inr entityComponents \<Rightarrow>
          (case updateEntitySystems_loop entity s rest of
             Inl err \<Rightarrow> Inl err
           | Inr rest' \<Rightarrow>
               Inr ((system,
                     if hasAllRequired (requiredComponents system) entityComponents
                     then set_add entity ents else set_delete entity ents) # rest')))"

definition updateEntitySystems :: "Entity \<Rightarrow> 'a ECS \<Rightarrow> error + 'a ECS" where
  "updateEntitySystems entity s =
     (case updateEntitySystems_loop entity s (systems s) of
        Inl err \<Rightarrow> Inl err
      | Inr systems' \<Rightarrow> Inr (s\<lparr>systems := systems'\<rparr>))"

definition addComponent :: "Entity \<Rightarrow> 'a Component \<Rightarrow> 'a ECS \<Rightarrow> error + 'a ECS" where
  "addComponent entity component s =
     (case getComponents entity s of
        Inl err \<Rightarrow> Inl err
      | Inr entityComponents \<Rightarrow>
          updateEntitySystems entity
            (s\<lparr>entities :=
                 AList.update entity
                   (AList.update (type component) component entityComponents) (entities s)\<rparr>))"

definition removeComponent :: "Entity \<Rightarrow> 'a Component \<Rightarrow> 'a ECS \<Rightarrow> error + 'a ECS" where
  "removeComponent entity component s =
     (case getComponents entity s of
        Inl err \<Rightarrow> Inl err
      | Inr entityComponents \<Rightarrow>
          updateEntitySystems entity
            (s\<lparr>entities :=
                 AList.update entity
                   (AList.delete (type component) entityComponents) (entities s)\<rparr>))"

text \<open>The loop of \<open>addSystem\<close> over \<open>entities.keys()\<close>.\<close>

fun addSystem_loop :: "Entity list \<Rightarrow> 'a ECS \<Rightarrow> error + 'a ECS" where
  "addSystem_loop [] s = Inr s"
| "addSystem_loop (entity # rest) s =
     (case updateEntitySystems entity s of
        Inl err \<Rightarrow> Inl err
      | Inr s' \<Rightarrow> addSystem_loop rest s')"

definition addSystem :: "System \<Rightarrow> 'a ECS \<Rightarrow> error + 'a ECS" where
  "addSystem system s =
     addSystem_loop (map fst (entities s))
       (s\<lparr>systems := AList.update system [] (systems s)\<rparr>)"

definition removeSystem :: "System \<Rightarrow> 'a ECS \<Rightarrow> 'a ECS" where
  "removeSystem system s = s\<lparr>systems := AList.delete system (systems s)\<rparr>"

definition destroyEntity :: "Entity \<Rightarrow> 'a ECS \<Rightarrow> 'a ECS" where
  "destroyEntity entity s =
     s\<lparr>entities := AList.delete entity (entities s),
       systems := map (\<lambda>(system, ents). (system, set_delete entity ents)) (systems s)\<rparr>"

section \<open>Systems and the frame update\<close>

text \<open>
  What a system's \<open>update(entities, ecs)\<close> does with the engine handle, as a tree of
  the calls it makes: each node is one call of the engine's entity and component interface
  and continues with the call's result. A call that throws ends the system's update with
  that error (no system of the repository catches); \<open>Throw\<close> is an error of the system's
  own. Systems that register or remove systems, or call \<open>update\<close> again, while they are
  being updated are not covered.
\<close>

datatype 'a prog =
    Return
  | Throw error
  | AddEntity "Entity \<Rightarrow> 'a prog"
  | RemoveEntity Entity "'a prog"
  | AddComponent Entity "'a Component" "'a prog"
  | RemoveComponent Entity "'a Component" "'a prog"
  | GetComponents Entity "(ComponentType \<times> 'a Component) list \<Rightarrow> 'a prog"
  | GetComponent Entity ComponentType "'a \<Rightarrow> 'a prog"
  | GetDelta "int \<Rightarrow> 'a prog"

text \<open>
  Running a system's update on the engine: the error that came out of it, if any, and
  the engine as the update left it (JavaScript undoes nothing when an error is thrown).
\<close>

primrec run_prog :: "'a prog \<Rightarrow> 'a ECS \<Rightarrow> error option \<times> 'a ECS" where
  "run_prog Return s = (None, s)"
| "run_prog (Throw err) s = (Some err, s)"
| "run_prog (AddEntity k) s = (case addEntity s of (entity, s') \<Rightarrow> run_prog (k entity) s')"
| "run_prog (RemoveEntity entity k) s = run_prog k (removeEntity entity s)"
| "run_prog (AddComponent entity component k) s =
     (case addComponent entity component s of
        Inl err \<Rightarrow> (Some err, s)
      | Inr s' \<Rightarrow> run_prog k s')"
| "run_prog (RemoveComponent entity component k) s =
     (case removeComponent entity component s of
        Inl err \<Rightarrow> (Some err, s)
      | Inr s' \<Rightarrow> run_prog k s')"
| "run_prog (GetComponents entity k) s =
     (case getComponents entity s of
        Inl err \<Rightarrow> (Some err, s)
      | Inr entityComponents \<Rightarrow> run_prog (k entityComponents) s)"
| "run_prog (GetComponent entity t k) s =
     (case getComponent entity t s of
        Inl err \<Rightarrow> (Some err, s)
      | Inr d \<Rightarrow> run_prog (k d) s)"
| "run_prog (GetDelta k) s = run_prog (k (delta s)) s"

text \<open>
  One call of a system's \<open>update\<close>, as the frame loop makes it: the system, the
  membership set it is handed, and the engine it is handed.
\<close>

record 'a Invocation =
  inv_system :: System
  inv_entities :: "Entity list"
  inv_ecs :: "'a ECS"

type_synonym 'a behaviour = "System \<Rightarrow> Entity list \<Rightarrow> 'a prog"

text \<open>
  The first loop of \<open>update\<close>, over the entries of \<open>systems\<close>: the keys do not change
  while it runs, each system's set is read when its turn comes. It returns the calls it
  made, the error that stopped it, if any, and the engine.
\<close>

fun run_systems ::
  "'a behaviour \<Rightarrow> System list \<Rightarrow> 'a ECS \<Rightarrow> 'a Invocation list \<times> error option \<times> 'a ECS" where
  "run_systems upd [] s = ([], None, s)"
| "run_systems upd (system # rest) s =
     (case map_of (systems s) system of
        None \<Rightarrow> run_systems upd rest s
      | Some ents \<Rightarrow>
          (let inv = \<lparr>inv_system = system, inv_entities = ents, inv_ecs = s\<rparr>
           in case run_prog (upd system ents) s of
                (Some err, s') \<Rightarrow> ([inv], Some err, s')
              | (None, s') \<Rightarrow>
                  (case run_systems upd rest s' of (invs, r) \<Rightarrow> (inv # invs, r))))"

text \<open>The second loop of \<open>update\<close> and the reset of the queue.\<close>

definition flush :: "'a ECS \<Rightarrow> 'a ECS" where
  "flush s = (fold destroyEntity (entitiesToDestroy s) s)\<lparr>entitiesToDestroy := []\<rparr>"

text \<open>\<open>update()\<close> when \<open>Date.now()\<close> reads \<open>now\<close> and the systems behave as \<open>upd\<close>.\<close>

definition update ::
  "'a behaviour \<Rightarrow> int \<Rightarrow> 'a ECS \<Rightarrow> 'a Invocation list \<times> error option \<times> 'a ECS" where
  "update upd now s =
     (let s1 = s\<lparr>delta := now - start s, start := now\<rparr>
      in case run_systems upd (map fst (systems s1)) s1 of
           (invs, Some err, s2) \<Rightarrow> (invs, Some err, s2)
         | (invs, None, s2) \<Rightarrow> (invs, None, flush s2))"

text \<open>An entity is registered when the \<open>entities\<close> map has it as a key.\<close>

definition registered :: "'a ECS \<Rightarrow> Entity \<Rightarrow> bool" where
  "registered s entity = (map_of (entities s) entity \<noteq> None)"

text \<open>The membership set of a system, empty for a system that is not registered.\<close>

definition membership :: "'a ECS \<Rightarrow> System \<Rightarrow> Entity list" where
  "membership s system = (case map_of (systems s) system of None \<Rightarrow> [] | Some ents \<Rightarrow> ents)"

text \<open>The component types an entity has; none when it is not registered.\<close>

definition componentTypes :: "'a ECS \<Rightarrow> Entity \<Rightarrow> ComponentType set" where
  "componentTypes s entity =
     (case map_of (entities s) entity of None \<Rightarrow> {} | Some cs \<Rightarrow> fst ` set cs)"

text \<open>
  An entity qualifies for a system when it is registered and has every component type
  the system requires.
\<close>

definition qualifies :: "'a ECS \<Rightarrow> System \<Rightarrow> Entity \<Rightarrow> bool" where
  "qualifies s system entity \<longleftrightarrow>
     registered s entity \<and> set (requiredComponents system) \<subseteq> componentTypes s entity"

text \<open>
  What the representation guarantees in every engine that the operations can produce:
  the keys of both maps and the elements of every set are distinct, every registered
  entity came from the counter, and the sets hold registered entities only.
\<close>

definition well_formed :: "'a ECS \<Rightarrow> bool" where
  "well_formed s \<longleftrightarrow>
     distinct (map fst (systems s)) \<and>
     distinct (map fst (entities s)) \<and>
     (\<forall>e \<in> set (map fst (entities s)). e < nextEntityID s) \<and>
     (\<forall>p \<in> set (systems s). distinct (snd p) \<and> (\<forall>e \<in> set (snd p). registered s e))"

subsection \<open>The engine states of a frame\<close>

text \<open>
  The engine states that a system's update goes through, in order: the one it starts in
  and the one after each call that changes the engine.
\<close>

primrec prog_points :: "'a prog \<Rightarrow> 'a ECS \<Rightarrow> 'a ECS list" where
  "prog_points Return s = [s]"
| "prog_points (Throw err) s = [s]"
| "prog_points (AddEntity k) s =
     s # prog_points (k (fst (addEntity s))) (snd (addEntity s))"
| "prog_points (RemoveEntity entity k) s = s # prog_points k (removeEntity entity s)"
| "prog_points (AddComponent entity component k) s =
     (case addComponent entity component s of
        Inl err \<Rightarrow> [s]
      | Inr s' \<Rightarrow> s # prog_points k s')"
| "prog_points (RemoveComponent entity component k) s =
     (case removeComponent entity component s of
        Inl err \<Rightarrow> [s]
      | Inr s' \<Rightarrow> s # prog_points k s')"
| "prog_points (GetComponents entity k) s =
     (case getComponents entity s of
        Inl err \<Rightarrow> [s]
      | Inr entityComponents \<Rightarrow> prog_points (k entityComponents) s)"
| "prog_points (GetComponent entity t k) s =
     (case getComponent entity t s of
        Inl err \<Rightarrow> [s]
      | Inr d \<Rightarrow> prog_points (k d) s)"
| "prog_points (GetDelta k) s = prog_points (k (delta s)) s"

text \<open>The engine states that the first loop of \<open>update\<close> goes through.\<close>

fun systems_points :: "'a behaviour \<Rightarrow> System list \<Rightarrow> 'a ECS \<Rightarrow> 'a ECS list" where
  "systems_points upd [] s = [s]"
| "systems_points upd (system # rest) s =
     (case map_of (systems s) system of
        None \<Rightarrow> systems_points upd rest s
      | Some ents \<Rightarrow>
          (case run_prog (upd system ents) s of
             (Some err, s') \<Rightarrow> prog_points (upd system ents) s
           | (None, s') \<Rightarrow> prog_points (upd system ents) s @ systems_points upd rest s'))"

text \<open>
  The engine states of a frame, from the one in which the first system is called to the
  one in which the first loop ends, before any queued entity is destroyed.
\<close>

definition frame_points :: "'a behaviour \<Rightarrow> int \<Rightarrow> 'a ECS \<Rightarrow> 'a ECS list" where
  "frame_points upd now s =
     (let s1 = s\<lparr>delta := now - start s, start := now\<rparr>
      in systems_points upd (map fst (systems s1)) s1)"

subsection \<open>Calls of the public interface\<close>

text \<open>
  A call of the engine's interface by the application. An \<open>update\<close> comes with the clock
  reading it gets and with what the systems do in that frame.
\<close>

datatype 'a call =
    CallAddEntity
  | CallRemoveEntity Entity
  | CallAddComponent Entity "'a Component"
  | CallRemoveComponent Entity "'a Component"
  | CallGetComponents Entity
  | CallGetComponent Entity ComponentType
  | CallAddSystem System
  | CallRemoveSystem System
  | CallUpdate "'a behaviour" int

text \<open>
  The engine after a call. A call of the component interface that throws has changed
  nothing; an \<open>update\<close> that throws leaves the engine as it was at the throw.
\<close>

fun exec :: "'a call \<Rightarrow> 'a ECS \<Rightarrow> 'a ECS" where
  "exec CallAddEntity s = snd (addEntity s)"
| "exec (CallRemoveEntity entity) s = removeEntity entity s"
| "exec (CallAddComponent entity component) s =
     (case addComponent entity component s of Inl err \<Rightarrow> s | Inr s' \<Rightarrow> s')"
| "exec (CallRemoveComponent entity component) s =
     (case removeComponent entity component s of Inl err \<Rightarrow> s | Inr s' \<Rightarrow> s')"
| "exec (CallGetComponents entity) s = s"
| "exec (CallGetComponent entity t) s = s"
| "exec (CallAddSystem system) s =
     (case addSystem system s of Inl err \<Rightarrow> s | Inr s' \<Rightarrow> s')"
| "exec (CallRemoveSystem system) s = removeSystem system s"
| "exec (CallUpdate upd now) s = snd (snd (update upd now s))"

definition exec_all :: "'a call list \<Rightarrow> 'a ECS \<Rightarrow> 'a ECS" where
  "exec_all calls s = fold exec calls s"

text \<open>
  A system's update, or a call, that neither adds nor removes a component of type \<open>t\<close>
  on entity \<open>e\<close>.
\<close>

primrec prog_leaves :: "Entity \<Rightarrow> ComponentType \<Rightarrow> 'a prog \<Rightarrow> bool" where
  "prog_leaves e t Return = True"
| "prog_leaves e t (Throw err) = True"
| "prog_leaves e t (AddEntity k) = (\<forall>x. prog_leaves e t (k x))"
| "prog_leaves e t (RemoveEntity entity k) = prog_leaves e t k"
| "prog_leaves e t (AddComponent entity component k) =
     (\<not> (entity = e \<and> type component = t) \<and> prog_leaves e t k)"
| "prog_leaves e t (RemoveComponent entity component k) =
     (\<not> (entity = e \<and> type component = t) \<and> prog_leaves e t k)"
| "prog_leaves e t (GetComponents entity k) = (\<forall>x. prog_leaves e t (k x))"
| "prog_leaves e t (GetComponent entity t' k) = (\<forall>x. prog_leaves e t (k x))"
| "prog_leaves e t (GetDelta k) = (\<forall>x. prog_leaves e t (k x))"

fun call_leaves :: "Entity \<Rightarrow> ComponentType \<Rightarrow> 'a call \<Rightarrow> bool" where
  "call_leaves e t (CallAddComponent entity component) =
     (\<not> (entity = e \<and> type component = t))"
| "call_leaves e t (CallRemoveComponent entity component) =
     (\<not> (entity = e \<and> type component = t))"
| "call_leaves e t (CallUpdate upd now) = (\<forall>system ents. prog_leaves e t (upd system ents))"
| "call_leaves e t c = True"

subsection \<open>Notions for the statements and the proofs\<close>

text \<open>The component of type \<open>t\<close> that the store holds for an entity, if any.\<close>

definition stored :: "'a ECS \<Rightarrow> Entity \<Rightarrow> ComponentType \<Rightarrow> 'a Component option" where
  "stored s entity t =
     (case map_of (entities s) entity of None \<Rightarrow> None | Some cs \<Rightarrow> map_of cs t)"

text \<open>
  Entity \<open>e\<close> came from the counter and, as long as it is registered, holds component
  \<open>c\<close> under type \<open>t\<close>.
\<close>

definition holds :: "Entity \<Rightarrow> ComponentType \<Rightarrow> 'a Component \<Rightarrow> 'a ECS \<Rightarrow> bool" where
  "holds e t c s \<longleftrightarrow> e < nextEntityID s \<and> (registered s e \<longrightarrow> stored s e t = Some c)"


text \<open>
  The membership sets are right, as far as the code keeps them right: the set of a
  system holds qualifying entities only, and all of them when the system requires at
  least one component type.
\<close>

definition membership_ok :: "'a ECS \<Rightarrow> bool" where
  "membership_ok s \<longleftrightarrow>
     well_formed s \<and>
     (\<forall>system \<in> fst ` set (systems s).
        set (membership s system) \<subseteq> {e. qualifies s system e} \<and>
        (requiredComponents system \<noteq> [] \<longrightarrow>
           {e. qualifies s system e} \<subseteq> set (membership s system)))"

text \<open>
  Two engines that differ at most in their queues, in which the same identifiers are
  queued (how often, and in which order, may differ).
\<close>

definition same_requests :: "'a ECS \<Rightarrow> 'a ECS \<Rightarrow> bool" where
  "same_requests s t \<longleftrightarrow>
     t = s\<lparr>entitiesToDestroy := entitiesToDestroy t\<rparr> \<and>
     set (entitiesToDestroy t) = set (entitiesToDestroy s)"

text \<open>
  What one iteration of the loop of \<open>updateEntitySystems\<close> makes of an entry of
  \<open>systems\<close>, for an entity whose components are \<open>cs\<close>.
\<close>

definition recompute ::
  "Entity \<Rightarrow> (ComponentType \<times> 'a Component) list \<Rightarrow> System \<times> Entity list \<Rightarrow> System \<times> Entity list" where
  "recompute entity cs p =
     (fst p, if hasAllRequired (requiredComponents (fst p)) cs
             then set_add entity (snd p) else set_delete entity (snd p))"

text \<open>
  A property of the engine that every call open to a system keeps, and one that every
  step of the engine keeps.
\<close>

definition preserved :: "('a ECS \<Rightarrow> bool) \<Rightarrow> bool" where
  "preserved P \<longleftrightarrow>
     (\<forall>s. P s \<longrightarrow> P (snd (addEntity s))) \<and>
     (\<forall>e s. P s \<longrightarrow> P (removeEntity e s)) \<and>
     (\<forall>e c s s'. P s \<and> addComponent e c s = Inr s' \<longrightarrow> P s') \<and>
     (\<forall>e c s s'. P s \<and> removeComponent e c s = Inr s' \<longrightarrow> P s')"

definition preserved_all :: "('a ECS \<Rightarrow> bool) \<Rightarrow> bool" where
  "preserved_all P \<longleftrightarrow>
     preserved P \<and>
     (\<forall>system s s'. P s \<and> addSystem system s = Inr s' \<longrightarrow> P s') \<and>
     (\<forall>system s. P s \<longrightarrow> P (removeSystem system s)) \<and>
     (\<forall>now s. P s \<longrightarrow> P (s\<lparr>delta := now - start s, start := now\<rparr>)) \<and>
     (\<forall>s. P s \<longrightarrow> P (flush s))"




subsection \<open>An engine to try things on\<close>

text \<open>
  Two component types, 0 for a position and 1 for a tag; entity 0 has a position,
  entity 1 has both; one system requires both.
\<close>

definition ex_pos :: "nat Component" where
  "ex_pos = \<lparr>data = 10, type = 0\<rparr>"

definition ex_tag :: "nat Component" where
  "ex_tag = \<lparr>data = 20, type = 1\<rparr>"

definition ex_sys :: System where
  "ex_sys = \<lparr>sys_id = 0, requiredComponents = [0, 1]\<rparr>"

definition ex_ECS :: "nat ECS" where
  "ex_ECS =
     \<lparr>systems = [(ex_sys, [1])],
      entities = [(0, [(0, ex_pos)]), (1, [(0, ex_pos), (1, ex_tag)])],
      start = 100, delta = 0, nextEntityID = 2, nextComponentType = 2,
      entitiesToDestroy = []\<rparr>"

text \<open>The example engine with the unknown entity 7 queued for destruction.\<close>

definition ex_queued :: "nat ECS" where
  "ex_queued = ex_ECS\<lparr>entitiesToDestroy := [7]\<rparr>"

text \<open>Systems that do nothing.\<close>

definition ex_idle :: "nat behaviour" where
  "ex_idle system ents = Return"





text \<open>
  Calls that leave the tag of entity 0 alone: another entity is created, entity 1 gets
  its position again, a frame of idle systems passes, entity 0 loses its position.
\<close>

definition ex_calls :: "nat call list" where
  "ex_calls =
     [CallAddEntity, CallAddComponent 1 ex_pos, CallUpdate ex_idle 150,
      CallRemoveComponent 0 ex_pos]"

text \<open>A system that requires no component type.\<close>

definition ex_all :: System where
  "ex_all = \<lparr>sys_id = 2, requiredComponents = []\<rparr>"

text \<open>
  An engine on which the system that requires nothing is registered first and two
  entities are created afterwards, the second of which gets a position.
\<close>

definition ex_late :: "nat ECS" where
  "ex_late =
     exec_all [CallAddSystem ex_all, CallAddEntity, CallAddEntity, CallAddComponent 1 ex_pos]
       (new_ECS 0 0 0)"

section \<open>Errors of the component interface\<close>

lemma getComponents_Inl:
  "getComponents e s = Inl err \<longleftrightarrow> (\<not> registered s e \<and> err = UnknownEntity e)"
  by (auto simp: getComponents_def registered_def split: option.splits)

lemma updateEntitySystems_loop_registered:
  "registered s e \<Longrightarrow> \<exists>ss'. updateEntitySystems_loop e s ss = Inr ss'"
proof (induction ss)
  case Nil
  then show ?case by simp
next
  case (Cons p ss)
  obtain sy ents where p: "p = (sy, ents)" by (cases p)
  from Cons obtain ss' where "updateEntitySystems_loop e s ss = Inr ss'" by blast
  moreover from Cons.prems obtain cs where "getComponents e s = Inr cs"
    by (auto simp: getComponents_def registered_def)
  ultimately show ?case by (simp add: p)
qed

lemma updateEntitySystems_registered:
  "registered s e \<Longrightarrow> \<exists>s'. updateEntitySystems e s = Inr s'"
  using updateEntitySystems_loop_registered [of s e "systems s"]
  by (auto simp: updateEntitySystems_def)

lemma registered_update_entities [simp]:
  "registered (s\<lparr>entities := AList.update e v (entities s)\<rparr>) e' \<longleftrightarrow> e' = e \<or> registered s e'"
  by (auto simp: registered_def update_conv')

lemma addComponent_Inl:
  "addComponent e c s = Inl err \<longleftrightarrow> (\<not> registered s e \<and> err = UnknownEntity e)"
proof (cases "registered s e")
  case True
  then obtain cs where cs: "getComponents e s = Inr cs"
    by (auto simp: getComponents_def registered_def)
  have "registered (s\<lparr>entities := AList.update e (AList.update (type c) c cs) (entities s)\<rparr>) e"
    by simp
  from updateEntitySystems_registered [OF this] cs True show ?thesis
    by (auto simp: addComponent_def)
next
  case False
  then show ?thesis
    by (auto simp: addComponent_def getComponents_def registered_def split: option.splits)
qed

lemma removeComponent_Inl:
  "removeComponent e c s = Inl err \<longleftrightarrow> (\<not> registered s e \<and> err = UnknownEntity e)"
proof (cases "registered s e")
  case True
  then obtain cs where cs: "getComponents e s = Inr cs"
    by (auto simp: getComponents_def registered_def)
  have "registered (s\<lparr>entities := AList.update e (AList.delete (type c) cs) (entities s)\<rparr>) e"
    by simp
  from updateEntitySystems_registered [OF this] cs True show ?thesis
    by (auto simp: removeComponent_def)
next
  case False
  then show ?thesis
    by (auto simp: removeComponent_def getComponents_def registered_def split: option.splits)
qed

lemma getComponent_cases:
  "getComponent e t s =
     (case map_of (entities s) e of
        None \<Rightarrow> Inl (UnknownEntity e)
      | Some cs \<Rightarrow> (case map_of cs t of
                     None \<Rightarrow> Inl (MissingComponent e t)
                   | Some c \<Rightarrow> Inr (data c)))"
  by (simp add: getComponent_def getComponents_def split: option.splits)

text \<open>
  C4. \<open>addComponent\<close>, \<open>removeComponent\<close>, \<open>getComponents\<close> and \<open>getComponent\<close> throw
  the unknown-entity error exactly when the entity is not registered, and throw nothing
  else; on a registered entity \<open>getComponent\<close> throws the missing-component error exactly
  when the entity has no component of the type asked for, and returns the payload of the
  stored component otherwise.
\<close>

theorem component_interface_errors:
  "(\<forall>err. addComponent e c s = Inl err \<longleftrightarrow> \<not> registered s e \<and> err = UnknownEntity e) \<and>
   (\<forall>err. removeComponent e c s = Inl err \<longleftrightarrow> \<not> registered s e \<and> err = UnknownEntity e) \<and>
   (\<forall>err. getComponents e s = Inl err \<longleftrightarrow> \<not> registered s e \<and> err = UnknownEntity e) \<and>
   (getComponent e t s = Inl (UnknownEntity e) \<longleftrightarrow> \<not> registered s e) \<and>
   (registered s e \<longrightarrow>
      (getComponent e t s = Inl (MissingComponent e t) \<longleftrightarrow> t \<notin> componentTypes s e) \<and>
      (\<forall>err. getComponent e t s = Inl err \<longrightarrow> err = MissingComponent e t) \<and>
      (\<forall>cs c'. map_of (entities s) e = Some cs \<and> map_of cs t = Some c' \<longrightarrow>
          getComponent e t s = Inr (data c')))"
proof -
  have "getComponent e t s = Inl (UnknownEntity e) \<longleftrightarrow> \<not> registered s e"
    by (auto simp: getComponent_cases registered_def split: option.splits)
  moreover have "registered s e \<longrightarrow>
      (getComponent e t s = Inl (MissingComponent e t) \<longleftrightarrow> t \<notin> componentTypes s e) \<and>
      (\<forall>err. getComponent e t s = Inl err \<longrightarrow> err = MissingComponent e t) \<and>
      (\<forall>cs c'. map_of (entities s) e = Some cs \<and> map_of cs t = Some c' \<longrightarrow>
          getComponent e t s = Inr (data c'))"
    by (auto simp: getComponent_cases registered_def componentTypes_def map_of_eq_None_iff
        split: option.splits dest: map_of_SomeD intro: rev_image_eqI)
  ultimately show ?thesis
    using addComponent_Inl [of e c s] removeComponent_Inl [of e c s] getComponents_Inl [of e s]
    by blast
qed

text \<open>Entity 7 is unknown to the example engine, entity 0 has a position and no tag.\<close>

theorem component_interface_errors_witness:
  "\<not> registered ex_ECS 7 \<and> addComponent 7 ex_tag ex_ECS = Inl (UnknownEntity 7) \<and>
   getComponent 7 0 ex_ECS = Inl (UnknownEntity 7) \<and>
   registered ex_ECS 0 \<and> getComponent 0 1 ex_ECS = Inl (MissingComponent 0 1) \<and>
   getComponent 0 0 ex_ECS = Inr 10"
proof -
  have a: "\<not> registered ex_ECS 7" and b: "registered ex_ECS 0"
    by (simp_all add: registered_def ex_ECS_def)
  have c: "1 \<notin> componentTypes ex_ECS 0"
    by (simp add: componentTypes_def ex_ECS_def)
  have d: "map_of (entities ex_ECS) 0 = Some [(0, ex_pos)] \<and> map_of [(0, ex_pos)] 0 = Some ex_pos"
    by (simp add: ex_ECS_def)
  have e: "data ex_pos = 10" by (simp add: ex_pos_def)
  from component_interface_errors [of 7 ex_tag ex_ECS 0] a
  have 1: "addComponent 7 ex_tag ex_ECS = Inl (UnknownEntity 7)"
    and 2: "getComponent 7 0 ex_ECS = Inl (UnknownEntity 7)" by blast+
  from component_interface_errors [of 0 ex_tag ex_ECS 1] b c
  have 3: "getComponent 0 1 ex_ECS = Inl (MissingComponent 0 1)" by blast
  from component_interface_errors [of 0 ex_tag ex_ECS 0] b d
  have "getComponent 0 0 ex_ECS = Inr (data ex_pos)" by blast
  with e have 4: "getComponent 0 0 ex_ECS = Inr 10" by simp
  from a b 1 2 3 4 show ?thesis by blast
qed

section \<open>What the component calls do to the engine\<close>

lemma hasAllRequired_iff:
  "hasAllRequired req cs \<longleftrightarrow> set req \<subseteq> fst ` set cs"
  by (induction req) (auto simp: map_of_eq_None_iff)

lemma updateEntitySystems_loop_Inr:
  "map_of (entities s) e = Some cs \<Longrightarrow>
   updateEntitySystems_loop e s ss = Inr (map (recompute e cs) ss)"
  by (induction ss) (auto simp: getComponents_def recompute_def)

lemma updateEntitySystems_Inr:
  "map_of (entities s) e = Some cs \<Longrightarrow>
   updateEntitySystems e s = Inr (s\<lparr>systems := map (recompute e cs) (systems s)\<rparr>)"
  by (simp add: updateEntitySystems_def updateEntitySystems_loop_Inr)

lemma addComponent_Inr:
  "map_of (entities s) e = Some cs \<Longrightarrow>
   addComponent e c s =
     Inr (s\<lparr>entities := AList.update e (AList.update (type c) c cs) (entities s),
            systems := map (recompute e (AList.update (type c) c cs)) (systems s)\<rparr>)"
  by (simp add: addComponent_def getComponents_def updateEntitySystems_Inr update_conv')

lemma removeComponent_Inr:
  "map_of (entities s) e = Some cs \<Longrightarrow>
   removeComponent e c s =
     Inr (s\<lparr>entities := AList.update e (AList.delete (type c) cs) (entities s),
            systems := map (recompute e (AList.delete (type c) cs)) (systems s)\<rparr>)"
  by (simp add: removeComponent_def getComponents_def updateEntitySystems_Inr update_conv')

lemma addComponent_InrD:
  "addComponent e c s = Inr s' \<Longrightarrow>
   \<exists>cs. map_of (entities s) e = Some cs \<and>
     s' = s\<lparr>entities := AList.update e (AList.update (type c) c cs) (entities s),
            systems := map (recompute e (AList.update (type c) c cs)) (systems s)\<rparr>"
  by (cases "map_of (entities s) e")
     (auto simp: addComponent_Inr, simp add: addComponent_def getComponents_def)

lemma removeComponent_InrD:
  "removeComponent e c s = Inr s' \<Longrightarrow>
   \<exists>cs. map_of (entities s) e = Some cs \<and>
     s' = s\<lparr>entities := AList.update e (AList.delete (type c) cs) (entities s),
            systems := map (recompute e (AList.delete (type c) cs)) (systems s)\<rparr>"
  by (cases "map_of (entities s) e")
     (auto simp: removeComponent_Inr, simp add: removeComponent_def getComponents_def)

section \<open>Properties that the calls of a system keep\<close>

lemma run_prog_preserved:
  "preserved P \<Longrightarrow> P s \<Longrightarrow> P (snd (run_prog p s))"
proof (induction p arbitrary: s)
  case (AddEntity k)
  from AddEntity.prems have "P (snd (addEntity s))" unfolding preserved_def by blast
  from AddEntity.IH [OF _ AddEntity.prems(1) this] show ?case
    by (simp add: split_beta)
next
  case (RemoveEntity e k)
  from RemoveEntity.prems have "P (removeEntity e s)" unfolding preserved_def by blast
  from RemoveEntity.IH [OF RemoveEntity.prems(1) this] show ?case by simp
next
  case (AddComponent e c k)
  show ?case
  proof (cases "addComponent e c s")
    case (Inl err)
    with AddComponent.prems show ?thesis by simp
  next
    case (Inr s')
    with AddComponent.prems have "P s'" unfolding preserved_def by blast
    from AddComponent.IH [OF AddComponent.prems(1) this] Inr show ?thesis by simp
  qed
next
  case (RemoveComponent e c k)
  show ?case
  proof (cases "removeComponent e c s")
    case (Inl err)
    with RemoveComponent.prems show ?thesis by simp
  next
    case (Inr s')
    with RemoveComponent.prems have "P s'" unfolding preserved_def by blast
    from RemoveComponent.IH [OF RemoveComponent.prems(1) this] Inr show ?thesis by simp
  qed
next
  case (GetComponents e k)
  then show ?case by (cases "getComponents e s") auto
next
  case (GetComponent e t k)
  then show ?case by (cases "getComponent e t s") auto
next
  case (GetDelta k)
  from GetDelta.IH [OF _ GetDelta.prems(1,2)] show ?case by simp
next
  case Return
  then show ?case by simp
next
  case (Throw err)
  then show ?case by simp
qed

lemma prog_points_preserved:
  "preserved P \<Longrightarrow> P s \<Longrightarrow> t \<in> set (prog_points p s) \<Longrightarrow> P t"
proof (induction p arbitrary: s)
  case (AddEntity k)
  from AddEntity.prems have "P (snd (addEntity s))" unfolding preserved_def by blast
  from AddEntity.IH [OF _ AddEntity.prems(1) this] AddEntity.prems show ?case
    by auto
next
  case (RemoveEntity e k)
  from RemoveEntity.prems have "P (removeEntity e s)" unfolding preserved_def by blast
  from RemoveEntity.IH [OF RemoveEntity.prems(1) this] RemoveEntity.prems show ?case by auto
next
  case (AddComponent e c k)
  show ?case
  proof (cases "addComponent e c s")
    case (Inl err)
    with AddComponent.prems show ?thesis by simp
  next
    case (Inr s')
    with AddComponent.prems have "P s'" unfolding preserved_def by blast
    from AddComponent.IH [OF AddComponent.prems(1) this] Inr AddComponent.prems
    show ?thesis by auto
  qed
next
  case (RemoveComponent e c k)
  show ?case
  proof (cases "removeComponent e c s")
    case (Inl err)
    with RemoveComponent.prems show ?thesis by simp
  next
    case (Inr s')
    with RemoveComponent.prems have "P s'" unfolding preserved_def by blast
    from RemoveComponent.IH [OF RemoveComponent.prems(1) this] Inr RemoveComponent.prems
    show ?thesis by auto
  qed
next
  case (GetComponents e k)
  then show ?case by (cases "getComponents e s") auto
next
  case (GetComponent e t k)
  then show ?case by (cases "getComponent e t s") auto
next
  case (GetDelta k)
  from GetDelta.IH [of "k (delta s)" s] GetDelta.prems show ?case by simp
next
  case Return
  then show ?case by simp
next
  case (Throw err)
  then show ?case by simp
qed

lemma prog_points_nonempty [simp]: "prog_points p s \<noteq> []"
proof (induction p arbitrary: s)
  case (AddComponent e c k)
  then show ?case by (cases "addComponent e c s") auto
next
  case (RemoveComponent e c k)
  then show ?case by (cases "removeComponent e c s") auto
next
  case (GetComponents e k)
  then show ?case by (cases "getComponents e s") auto
next
  case (GetComponent e t k)
  then show ?case by (cases "getComponent e t s") auto
qed (simp_all add: split_beta)

lemma prog_points_last: "last (prog_points p s) = snd (run_prog p s)"
proof (induction p arbitrary: s)
  case (AddComponent e c k)
  then show ?case by (cases "addComponent e c s") auto
next
  case (RemoveComponent e c k)
  then show ?case by (cases "removeComponent e c s") auto
next
  case (GetComponents e k)
  then show ?case by (cases "getComponents e s") auto
next
  case (GetComponent e t k)
  then show ?case by (cases "getComponent e t s") auto
qed (simp_all add: split_beta)

lemma prog_points_hd: "hd (prog_points p s) = s"
proof (induction p arbitrary: s)
  case (AddComponent e c k)
  then show ?case by (cases "addComponent e c s") auto
next
  case (RemoveComponent e c k)
  then show ?case by (cases "removeComponent e c s") auto
next
  case (GetComponents e k)
  then show ?case by (cases "getComponents e s") auto
next
  case (GetComponent e t k)
  then show ?case by (cases "getComponent e t s") auto
qed (simp_all add: split_beta)


lemma run_systems_preserved:
  "preserved P \<Longrightarrow> P s \<Longrightarrow> P (snd (snd (run_systems upd ss s)))"
proof (induction ss arbitrary: s)
  case Nil
  then show ?case by simp
next
  case (Cons sy ss)
  show ?case
  proof (cases "map_of (systems s) sy")
    case None
    with Cons show ?thesis by simp
  next
    case (Some ents)
    obtain r s' where rp: "run_prog (upd sy ents) s = (r, s')" by (cases "run_prog (upd sy ents) s")
    from run_prog_preserved [OF Cons.prems, of "upd sy ents"] rp have s': "P s'" by simp
    show ?thesis
    proof (cases r)
      case None
      from Cons.IH [OF Cons.prems(1) s'] show ?thesis
        by (simp add: Some rp None split_beta)
    next
      case (Some err)
      with s' show ?thesis by (simp add: \<open>map_of (systems s) sy = Some ents\<close> rp)
    qed
  qed
qed


lemma systems_points_nonempty [simp]: "systems_points upd ss s \<noteq> []"
proof (induction ss arbitrary: s)
  case Nil
  show ?case by simp
next
  case (Cons sy ss)
  then show ?case
    by (simp split: option.splits prod.splits)
qed

lemma systems_points_last:
  "last (systems_points upd ss s) = snd (snd (run_systems upd ss s))"
proof (induction ss arbitrary: s)
  case Nil
  show ?case by simp
next
  case (Cons sy ss)
  show ?case
  proof (cases "map_of (systems s) sy")
    case None
    with Cons show ?thesis by simp
  next
    case (Some ents)
    obtain r s' where rp: "run_prog (upd sy ents) s = (r, s')" by (cases "run_prog (upd sy ents) s")
    from prog_points_last [of "upd sy ents" s] rp
    have l: "last (prog_points (upd sy ents) s) = s'" by simp
    show ?thesis
    proof (cases r)
      case None
      with Cons.IH [of s'] show ?thesis by (simp add: Some rp split_beta)
    next
      case (Some err)
      with l show ?thesis by (simp add: \<open>map_of (systems s) sy = Some ents\<close> rp)
    qed
  qed
qed

lemma systems_points_preserved:
  "preserved P \<Longrightarrow> P s \<Longrightarrow> t \<in> set (systems_points upd ss s) \<Longrightarrow> P t"
proof (induction ss arbitrary: s)
  case Nil
  then show ?case by simp
next
  case (Cons sy ss)
  show ?case
  proof (cases "map_of (systems s) sy")
    case None
    with Cons show ?thesis by simp
  next
    case (Some ents)
    obtain r s' where rp: "run_prog (upd sy ents) s = (r, s')" by (cases "run_prog (upd sy ents) s")
    from run_prog_preserved [OF Cons.prems(1,2), of "upd sy ents"] rp have s': "P s'" by simp
    from Cons.prems(3)
    have "t \<in> set (prog_points (upd sy ents) s) \<or> t \<in> set (systems_points upd ss s')"
      by (cases r) (auto simp: Some rp)
    with prog_points_preserved [OF Cons.prems(1,2)] Cons.IH [OF Cons.prems(1) s']
    show ?thesis by blast
  qed
qed



section \<open>The representation invariant\<close>

lemma registered_iff: "registered s e \<longleftrightarrow> e \<in> fst ` set (entities s)"
  by (simp add: registered_def map_of_eq_None_iff)

lemma map_fst_recompute [simp]: "map fst (map (recompute e cs) ss) = map fst ss"
  by (induction ss) (simp_all add: recompute_def)

lemma set_set_add [simp]: "set (set_add e es) = insert e (set es)"
  by (auto simp: set_add_def)

lemma set_set_delete [simp]: "set (set_delete e es) = set es - {e}"
  by (auto simp: set_delete_def)

lemma distinct_set_add [simp]: "distinct es \<Longrightarrow> distinct (set_add e es)"
  by (simp add: set_add_def)

lemma distinct_set_delete [simp]: "distinct es \<Longrightarrow> distinct (set_delete e es)"
  by (simp add: set_delete_def distinct_removeAll)

lemma snd_recompute_subset: "set (snd (recompute e cs p)) \<subseteq> insert e (set (snd p))"
  by (auto simp: recompute_def)

lemma distinct_snd_recompute: "distinct (snd p) \<Longrightarrow> distinct (snd (recompute e cs p))"
  by (simp add: recompute_def)

lemma fst_recompute [simp]: "fst (recompute e cs p) = fst p"
  by (simp add: recompute_def)

lemma fst_comp_recompute [simp]: "fst \<circ> recompute e cs = fst"
  by (rule ext) simp

lemma well_formed_alt:
  "well_formed s \<longleftrightarrow>
     distinct (map fst (systems s)) \<and> distinct (map fst (entities s)) \<and>
     (\<forall>e \<in> fst ` set (entities s). e < nextEntityID s) \<and>
     (\<forall>p \<in> set (systems s). distinct (snd p) \<and> set (snd p) \<subseteq> fst ` set (entities s))"
  unfolding well_formed_def registered_iff by auto

lemma well_formed_addEntity: "well_formed s \<Longrightarrow> well_formed (snd (addEntity s))"
  unfolding well_formed_alt
  by (simp add: addEntity_def Let_def distinct_update dom_update less_Suc_eq subset_insertI2)

lemma well_formed_removeEntity: "well_formed s \<Longrightarrow> well_formed (removeEntity e s)"
  unfolding well_formed_alt by (simp add: removeEntity_def)

lemma well_formed_recompute:
  assumes wf: "well_formed s" and e: "map_of (entities s) e = Some cs0"
  shows "well_formed (s\<lparr>entities := AList.update e cs' (entities s),
                        systems := map (recompute e cs) (systems s)\<rparr>)"
proof -
  from e have ereg: "e \<in> fst ` set (entities s)"
    by (metis domI dom_map_of_conv_image_fst)
  then have keys: "fst ` set (AList.update e cs' (entities s)) = fst ` set (entities s)"
    by (auto simp: dom_update)
  have "\<forall>p \<in> set (systems s).
          distinct (snd (recompute e cs p)) \<and>
          set (snd (recompute e cs p)) \<subseteq> fst ` set (entities s)"
  proof
    fix q assume q: "q \<in> set (systems s)"
    with wf have "distinct (snd q)" "set (snd q) \<subseteq> fst ` set (entities s)"
      by (simp_all add: well_formed_alt)
    with ereg snd_recompute_subset [of e cs q] distinct_snd_recompute [of q e cs]
    show "distinct (snd (recompute e cs q)) \<and>
          set (snd (recompute e cs q)) \<subseteq> fst ` set (entities s)"
      by blast
  qed
  with wf keys show ?thesis
    unfolding well_formed_alt by (simp add: distinct_update)
qed

lemma well_formed_addComponent:
  "well_formed s \<Longrightarrow> addComponent e c s = Inr s' \<Longrightarrow> well_formed s'"
  by (auto dest!: addComponent_InrD intro: well_formed_recompute)

lemma well_formed_removeComponent:
  "well_formed s \<Longrightarrow> removeComponent e c s = Inr s' \<Longrightarrow> well_formed s'"
  by (auto dest!: removeComponent_InrD intro: well_formed_recompute)

lemma preserved_well_formed: "preserved well_formed"
  unfolding preserved_def
  using well_formed_addEntity well_formed_removeEntity well_formed_addComponent
    well_formed_removeComponent by blast

lemma updateEntitySystems_InrD:
  "updateEntitySystems e s = Inr s' \<Longrightarrow>
   \<exists>cs. map_of (entities s) e = Some cs \<and> s' = s\<lparr>systems := map (recompute e cs) (systems s)\<rparr>
   \<or> systems s = [] \<and> s' = s"
proof (cases "map_of (entities s) e")
  case None
  assume r: "updateEntitySystems e s = Inr s'"
  show ?thesis
  proof (cases "systems s")
    case Nil
    with r have "s' = s\<lparr>systems := systems s\<rparr>" by (simp add: updateEntitySystems_def)
    with Nil show ?thesis by simp
  next
    case (Cons p ss)
    obtain sy ents where "p = (sy, ents)" by (cases p)
    with r None Cons show ?thesis
      by (simp add: updateEntitySystems_def getComponents_def)
  qed
next
  case (Some cs)
  assume "updateEntitySystems e s = Inr s'"
  with Some show ?thesis by (simp add: updateEntitySystems_Inr)
qed

lemma well_formed_updateEntitySystems:
  assumes "well_formed s" and "updateEntitySystems e s = Inr s'"
  shows "well_formed s'"
proof -
  from updateEntitySystems_InrD [OF assms(2)] show ?thesis
  proof (elim disjE exE conjE)
    fix cs assume cs: "map_of (entities s) e = Some cs"
      and s': "s' = s\<lparr>systems := map (recompute e cs) (systems s)\<rparr>"
    from cs have "AList.update e cs (entities s) = entities s" by (rule update_triv)
    with well_formed_recompute [OF assms(1) cs, of cs cs] s' show ?thesis by simp
  next
    assume "s' = s"
    with assms(1) show ?thesis by simp
  qed
qed

lemma updateEntitySystems_frame:
  "updateEntitySystems e s = Inr s' \<Longrightarrow> \<exists>ss. s' = s\<lparr>systems := ss\<rparr>"
  by (auto simp: updateEntitySystems_def split: sum.splits)

lemma updateEntitySystems_keys:
  "updateEntitySystems e s = Inr s' \<Longrightarrow> map fst (systems s') = map fst (systems s)"
  by (auto dest!: updateEntitySystems_InrD)

lemma addSystem_loop_Inr:
  "set es \<subseteq> fst ` set (entities s) \<Longrightarrow> \<exists>s'. addSystem_loop es s = Inr s'"
proof (induction es arbitrary: s)
  case Nil
  show ?case by simp
next
  case (Cons e es)
  then have "registered s e" by (simp add: registered_iff)
  from updateEntitySystems_registered [OF this] obtain s1 where s1: "updateEntitySystems e s = Inr s1"
    by blast
  from updateEntitySystems_frame [OF s1] have "entities s1 = entities s" by auto
  with Cons.prems have "set es \<subseteq> fst ` set (entities s1)" by simp
  from Cons.IH [OF this] s1 show ?case by simp
qed

lemma addSystem_loop_frame:
  "addSystem_loop es s = Inr s' \<Longrightarrow> \<exists>ss. s' = s\<lparr>systems := ss\<rparr>"
proof (induction es arbitrary: s)
  case Nil
  then have "s' = s\<lparr>systems := systems s\<rparr>" by simp
  then show ?case ..
next
  case (Cons e es)
  then obtain s1 where s1: "updateEntitySystems e s = Inr s1" and r: "addSystem_loop es s1 = Inr s'"
    by (auto split: sum.splits)
  from Cons.IH [OF r] obtain ss where "s' = s1\<lparr>systems := ss\<rparr>" ..
  moreover from updateEntitySystems_frame [OF s1] obtain ss1 where "s1 = s\<lparr>systems := ss1\<rparr>" ..
  ultimately have "s' = s\<lparr>systems := ss\<rparr>" by simp
  then show ?case ..
qed

lemma addSystem_loop_keys:
  "addSystem_loop es s = Inr s' \<Longrightarrow> map fst (systems s') = map fst (systems s)"
proof (induction es arbitrary: s)
  case Nil
  then show ?case by simp
next
  case (Cons e es)
  then obtain s1 where s1: "updateEntitySystems e s = Inr s1" and r: "addSystem_loop es s1 = Inr s'"
    by (auto split: sum.splits)
  from Cons.IH [OF r] updateEntitySystems_keys [OF s1] show ?case by simp
qed

lemma well_formed_addSystem_loop:
  "well_formed s \<Longrightarrow> addSystem_loop es s = Inr s' \<Longrightarrow> well_formed s'"
proof (induction es arbitrary: s)
  case Nil
  then show ?case by simp
next
  case (Cons e es)
  then obtain s1 where s1: "updateEntitySystems e s = Inr s1" and r: "addSystem_loop es s1 = Inr s'"
    by (auto split: sum.splits)
  from well_formed_updateEntitySystems [OF Cons.prems(1) s1] Cons.IH r show ?case by blast
qed

lemma addSystem_Inr: "\<exists>s'. addSystem sy s = Inr s'"
  unfolding addSystem_def by (rule addSystem_loop_Inr) simp

lemma addSystem_frame: "addSystem sy s = Inr s' \<Longrightarrow> \<exists>ss. s' = s\<lparr>systems := ss\<rparr>"
  unfolding addSystem_def by (drule addSystem_loop_frame) auto

lemma addSystem_keys:
  "addSystem sy s = Inr s' \<Longrightarrow> map fst (systems s') = map fst (AList.update sy [] (systems s))"
  unfolding addSystem_def by (drule addSystem_loop_keys) simp

lemma set_update_subset: "set (AList.update k v al) \<subseteq> insert (k, v) (set al)"
  by (induction al) auto

lemma well_formed_addSystem:
  assumes "well_formed s" and "addSystem sy s = Inr s'"
  shows "well_formed s'"
proof -
  have "\<forall>p \<in> set (AList.update sy [] (systems s)).
          distinct (snd p) \<and> set (snd p) \<subseteq> fst ` set (entities s)"
  proof
    fix p assume "p \<in> set (AList.update sy [] (systems s))"
    with set_update_subset [of sy "[]" "systems s"] have "p = (sy, []) \<or> p \<in> set (systems s)"
      by blast
    with assms(1) show "distinct (snd p) \<and> set (snd p) \<subseteq> fst ` set (entities s)"
      unfolding well_formed_alt by auto
  qed
  with assms(1) have "well_formed (s\<lparr>systems := AList.update sy [] (systems s)\<rparr>)"
    unfolding well_formed_alt by (simp add: distinct_update)
  with assms(2) show ?thesis
    unfolding addSystem_def by (rule well_formed_addSystem_loop [rotated])
qed

lemma set_delete_subset: "set (AList.delete k al) \<subseteq> set al"
  by (auto simp: AList.delete_eq)

lemma dom_delete: "fst ` set (AList.delete k al) = fst ` set al - {k}"
  using delete_keys [of k al] by (metis list.set_map set_removeAll)

lemma well_formed_removeSystem:
  assumes "well_formed s"
  shows "well_formed (removeSystem sy s)"
proof -
  from assms set_delete_subset [of sy "systems s"]
  have "\<forall>p \<in> set (AList.delete sy (systems s)).
          distinct (snd p) \<and> set (snd p) \<subseteq> fst ` set (entities s)"
    unfolding well_formed_alt by blast
  with assms show ?thesis
    unfolding well_formed_alt removeSystem_def by (simp add: distinct_delete)
qed

lemma fst_comp_case [simp]: "fst \<circ> (\<lambda>(system, ents). (system, f ents)) = fst"
  by (rule ext) (simp add: split_beta)

lemma destroyEntity_keys [simp]: "map fst (systems (destroyEntity e s)) = map fst (systems s)"
  by (simp add: destroyEntity_def)

lemma destroyEntity_dom [simp]:
  "fst ` set (entities (destroyEntity e s)) = fst ` set (entities s) - {e}"
  by (simp add: destroyEntity_def dom_delete)

lemma destroyEntity_members:
  "p \<in> set (systems (destroyEntity e s)) \<Longrightarrow>
   \<exists>q \<in> set (systems s). p = (fst q, set_delete e (snd q))"
  by (auto simp: destroyEntity_def split_beta)

lemma well_formed_destroyEntity:
  assumes "well_formed s"
  shows "well_formed (destroyEntity e s)"
proof -
  have "\<forall>p \<in> set (systems (destroyEntity e s)).
          distinct (snd p) \<and> set (snd p) \<subseteq> fst ` set (entities s) - {e}"
  proof
    fix p assume "p \<in> set (systems (destroyEntity e s))"
    from destroyEntity_members [OF this]
    obtain q where q: "q \<in> set (systems s)" "p = (fst q, set_delete e (snd q))" by blast
    with assms have "distinct (snd q)" "set (snd q) \<subseteq> fst ` set (entities s)"
      unfolding well_formed_alt by auto
    with q show "distinct (snd p) \<and> set (snd p) \<subseteq> fst ` set (entities s) - {e}"
      by auto
  qed
  moreover have "distinct (map fst (entities (destroyEntity e s)))"
    using assms by (simp add: destroyEntity_def distinct_delete well_formed_alt)
  moreover have "nextEntityID (destroyEntity e s) = nextEntityID s"
    by (simp add: destroyEntity_def)
  ultimately show ?thesis
    using assms unfolding well_formed_alt by auto
qed

lemma well_formed_fold_destroyEntity:
  "well_formed s \<Longrightarrow> well_formed (fold destroyEntity es s)"
  by (induction es arbitrary: s) (simp_all add: well_formed_destroyEntity)

lemma well_formed_queue [simp]:
  "well_formed (s\<lparr>entitiesToDestroy := q\<rparr>) = well_formed s"
  by (simp add: well_formed_alt)

lemma well_formed_clock [simp]:
  "well_formed (s\<lparr>delta := d, start := t\<rparr>) = well_formed s"
  by (simp add: well_formed_alt)

lemma well_formed_flush: "well_formed s \<Longrightarrow> well_formed (flush s)"
  by (simp add: flush_def well_formed_fold_destroyEntity)

lemma preserved_all_well_formed: "preserved_all well_formed"
  unfolding preserved_all_def
  using preserved_well_formed well_formed_addSystem well_formed_removeSystem well_formed_flush
  by auto

lemma preserved_allD: "preserved_all P \<Longrightarrow> preserved P"
  by (simp add: preserved_all_def)

lemma update_preserved:
  assumes "preserved_all P" and "P s"
  shows "P (snd (snd (update upd now s)))"
proof -
  let ?s1 = "s\<lparr>delta := now - start s, start := now\<rparr>"
  from assms have p1: "P ?s1" unfolding preserved_all_def by blast
  obtain invs r s2 where rs: "run_systems upd (map fst (systems ?s1)) ?s1 = (invs, r, s2)"
    by (cases "run_systems upd (map fst (systems ?s1)) ?s1") auto
  from run_systems_preserved [OF preserved_allD [OF assms(1)] p1, of upd "map fst (systems ?s1)"] rs
  have p2: "P s2" by simp
  with assms(1) have "P (flush s2)" unfolding preserved_all_def by blast
  with p2 rs show ?thesis
    by (cases r) (simp_all add: update_def Let_def)
qed

lemma exec_preserved:
  assumes "preserved_all P" and "P s"
  shows "P (exec c s)"
proof (cases c)
  note pr = preserved_allD [OF assms(1)]
  case CallAddEntity
  from pr assms(2) have "P (snd (addEntity s))" unfolding preserved_def by blast
  with CallAddEntity show ?thesis by simp
next
  case (CallRemoveEntity e)
  from preserved_allD [OF assms(1)] assms(2) have "P (removeEntity e s)"
    unfolding preserved_def by blast
  with CallRemoveEntity show ?thesis by simp
next
  case (CallAddComponent e co)
  show ?thesis
  proof (cases "addComponent e co s")
    case (Inl err)
    with assms CallAddComponent show ?thesis by simp
  next
    case (Inr s')
    with preserved_allD [OF assms(1)] assms(2) have "P s'" unfolding preserved_def by blast
    with CallAddComponent Inr show ?thesis by simp
  qed
next
  case (CallRemoveComponent e co)
  show ?thesis
  proof (cases "removeComponent e co s")
    case (Inl err)
    with assms CallRemoveComponent show ?thesis by simp
  next
    case (Inr s')
    with preserved_allD [OF assms(1)] assms(2) have "P s'" unfolding preserved_def by blast
    with CallRemoveComponent Inr show ?thesis by simp
  qed
next
  case (CallAddSystem sy)
  show ?thesis
  proof (cases "addSystem sy s")
    case (Inl err)
    with assms CallAddSystem show ?thesis by simp
  next
    case (Inr s')
    with assms have "P s'" unfolding preserved_all_def by blast
    with CallAddSystem Inr show ?thesis by simp
  qed
next
  case (CallRemoveSystem sy)
  from assms have "P (removeSystem sy s)" unfolding preserved_all_def by blast
  with CallRemoveSystem show ?thesis by simp
next
  case (CallUpdate upd now)
  with update_preserved [OF assms] show ?thesis by simp
next
  case (CallGetComponents e)
  with assms(2) show ?thesis by simp
next
  case (CallGetComponent e t)
  with assms(2) show ?thesis by simp
qed

lemma exec_all_preserved:
  "preserved_all P \<Longrightarrow> P s \<Longrightarrow> P (exec_all cs s)"
  unfolding exec_all_def by (induction cs arbitrary: s) (simp_all add: exec_preserved)

lemma well_formed_new: "well_formed (new_ECS now eid ct)"
  by (simp add: well_formed_def new_ECS_def)

lemma well_formed_reachable: "well_formed (exec_all calls (new_ECS now eid ct))"
  by (rule exec_all_preserved [OF preserved_all_well_formed well_formed_new])

section \<open>Destroying entities\<close>

lemma destroyEntity_filter:
  "destroyEntity e s =
     s\<lparr>entities := filter (\<lambda>p. fst p \<noteq> e) (entities s),
       systems := map (\<lambda>p. (fst p, filter (\<lambda>x. x \<noteq> e) (snd p))) (systems s)\<rparr>"
proof -
  have a: "AList.delete e (entities s) = filter (\<lambda>p. fst p \<noteq> e) (entities s)"
    by (induction "entities s" arbitrary: s) (auto simp: AList.delete_eq split_beta intro: filter_cong)
  have b: "map (\<lambda>(system, ents). (system, set_delete e ents)) ss
             = map (\<lambda>p. (fst p, filter (\<lambda>x. x \<noteq> e) (snd p))) ss" for ss
    by (induction ss) (auto simp: set_delete_def removeAll_filter_not_eq intro: filter_cong)
  show ?thesis unfolding destroyEntity_def a b ..
qed

lemma fold_destroyEntity:
  "fold destroyEntity q s =
     s\<lparr>entities := filter (\<lambda>p. fst p \<notin> set q) (entities s),
       systems := map (\<lambda>p. (fst p, filter (\<lambda>x. x \<notin> set q) (snd p))) (systems s)\<rparr>"
proof (induction q arbitrary: s)
  case Nil
  show ?case by simp
next
  case (Cons e q)
  have 1: "(\<lambda>p. fst p \<notin> set q \<and> fst p \<noteq> e) = (\<lambda>p. fst p \<noteq> e \<and> fst p \<notin> set q)" by auto
  have 2: "(\<lambda>x. x \<notin> set q \<and> x \<noteq> e) = (\<lambda>x. x \<noteq> e \<and> x \<notin> set q)" by auto
  have "fold destroyEntity (e # q) s = fold destroyEntity q (destroyEntity e s)" by simp
  also have "\<dots> = (destroyEntity e s)
      \<lparr>entities := filter (\<lambda>p. fst p \<notin> set q) (entities (destroyEntity e s)),
       systems := map (\<lambda>p. (fst p, filter (\<lambda>x. x \<notin> set q) (snd p)))
                    (systems (destroyEntity e s))\<rparr>"
    by (rule Cons.IH)
  also have "\<dots> = s\<lparr>entities := filter (\<lambda>p. fst p \<notin> set (e # q)) (entities s),
       systems := map (\<lambda>p. (fst p, filter (\<lambda>x. x \<notin> set (e # q)) (snd p))) (systems s)\<rparr>"
    by (simp add: destroyEntity_filter comp_def 1 2)
  finally show ?case .
qed

lemma flush_eq:
  "flush s =
     s\<lparr>entities := filter (\<lambda>p. fst p \<notin> set (entitiesToDestroy s)) (entities s),
       systems := map (\<lambda>p. (fst p, filter (\<lambda>x. x \<notin> set (entitiesToDestroy s)) (snd p)))
                    (systems s),
       entitiesToDestroy := []\<rparr>"
  by (simp add: flush_def fold_destroyEntity)

lemma destroyEntity_unregistered:
  assumes "well_formed s" and "\<not> registered s e"
  shows "destroyEntity e s = s"
proof -
  from assms(2) have a: "filter (\<lambda>p. fst p \<noteq> e) (entities s) = entities s"
    by (auto simp: registered_iff filter_id_conv)
  have b: "map (\<lambda>p. (fst p, filter (\<lambda>x. x \<noteq> e) (snd p))) (systems s) = systems s"
  proof (rule map_idI)
    fix p assume "p \<in> set (systems s)"
    with assms have "e \<notin> set (snd p)" by (auto simp: well_formed_def)
    then have "filter (\<lambda>x. x \<noteq> e) (snd p) = snd p" by (auto simp: filter_id_conv)
    then show "(fst p, filter (\<lambda>x. x \<noteq> e) (snd p)) = p" by simp
  qed
  show ?thesis unfolding destroyEntity_filter a b by simp
qed

lemma flush_unregistered:
  assumes "well_formed s" and "\<forall>e \<in> set (entitiesToDestroy s). \<not> registered s e"
  shows "flush s = s\<lparr>entitiesToDestroy := []\<rparr>"
proof -
  let ?q = "entitiesToDestroy s"
  from assms(2) have a: "filter (\<lambda>p. fst p \<notin> set ?q) (entities s) = entities s"
    by (auto simp: registered_iff filter_id_conv)
  have b: "map (\<lambda>p. (fst p, filter (\<lambda>x. x \<notin> set ?q) (snd p))) (systems s) = systems s"
  proof (rule map_idI)
    fix p assume "p \<in> set (systems s)"
    with assms have "\<forall>x \<in> set (snd p). x \<notin> set ?q" by (auto simp: well_formed_def)
    then have "filter (\<lambda>x. x \<notin> set ?q) (snd p) = snd p" by (auto simp: filter_id_conv)
    then show "(fst p, filter (\<lambda>x. x \<notin> set ?q) (snd p)) = p" by simp
  qed
  show ?thesis unfolding flush_eq a b by simp
qed

lemma update_flush:
  "update upd now s = (invs, None, s') \<Longrightarrow> s' = flush (last (frame_points upd now s))"
  by (auto simp: update_def frame_points_def Let_def systems_points_last
      split: prod.splits option.splits)


lemma flush_ignores_unregistered:
  assumes "well_formed s"
  shows "flush s = flush (s\<lparr>entitiesToDestroy := filter (registered s) (entitiesToDestroy s)\<rparr>)"
proof -
  let ?q = "entitiesToDestroy s" and ?q' = "filter (registered s) (entitiesToDestroy s)"
  have a: "filter (\<lambda>p. fst p \<notin> set ?q) (entities s) = filter (\<lambda>p. fst p \<notin> set ?q') (entities s)"
    by (rule filter_cong) (auto simp: registered_iff)
  have b: "map (\<lambda>p. (fst p, filter (\<lambda>x. x \<notin> set ?q) (snd p))) (systems s)
         = map (\<lambda>p. (fst p, filter (\<lambda>x. x \<notin> set ?q') (snd p))) (systems s)"
  proof (rule map_cong [OF refl])
    fix p assume "p \<in> set (systems s)"
    with assms have "\<forall>x \<in> set (snd p). registered s x" by (auto simp: well_formed_def)
    then have "filter (\<lambda>x. x \<notin> set ?q) (snd p) = filter (\<lambda>x. x \<notin> set ?q') (snd p)"
      by (intro filter_cong) auto
    then show "(fst p, filter (\<lambda>x. x \<notin> set ?q) (snd p)) = (fst p, filter (\<lambda>x. x \<notin> set ?q') (snd p))"
      by simp
  qed
  show ?thesis unfolding flush_eq a b by simp
qed

lemma well_formed_frame_points:
  assumes "well_formed s" and "t \<in> set (frame_points upd now s)"
  shows "well_formed t"
proof -
  from assms(1) have "well_formed (s\<lparr>delta := now - start s, start := now\<rparr>)" by simp
  from systems_points_preserved [OF preserved_well_formed this] assms(2) show ?thesis
    by (simp add: frame_points_def Let_def)
qed

lemma frame_points_nonempty [simp]: "frame_points upd now s \<noteq> []"
  by (simp add: frame_points_def Let_def)

lemma ex_ECS_well_formed: "well_formed ex_ECS"
  by (simp add: well_formed_def ex_ECS_def ex_sys_def registered_def)

text \<open>
  C9. \<open>removeEntity\<close> never fails, whatever identifier it is given, registered or not:
  it only queues it. Destroying an identifier that is not registered changes nothing;
  the flush leaves what it would leave had the unregistered identifiers not been queued;
  and when the queue of a frame holds unregistered identifiers only, the frame's flush
  leaves the registry with its component stores and every membership set as they were.
\<close>

theorem removeEntity_unknown:
  "run_prog (RemoveEntity e Return) s = (None, removeEntity e s) \<and>
   (well_formed s \<and> \<not> registered s e \<longrightarrow> destroyEntity e s = s) \<and>
   (well_formed s \<longrightarrow>
      flush s = flush (s\<lparr>entitiesToDestroy := filter (registered s) (entitiesToDestroy s)\<rparr>)) \<and>
   (well_formed s \<and> update upd now s = (invs, None, s') \<and>
    (\<forall>x \<in> set (entitiesToDestroy (last (frame_points upd now s))).
        \<not> registered (last (frame_points upd now s)) x) \<longrightarrow>
      entities s' = entities (last (frame_points upd now s)) \<and>
      systems s' = systems (last (frame_points upd now s)))"
proof (intro conjI impI)
  show "run_prog (RemoveEntity e Return) s = (None, removeEntity e s)" by simp
next
  assume "well_formed s \<and> \<not> registered s e"
  then show "destroyEntity e s = s" by (simp add: destroyEntity_unregistered)
next
  assume "well_formed s"
  then show "flush s = flush (s\<lparr>entitiesToDestroy := filter (registered s) (entitiesToDestroy s)\<rparr>)"
    by (rule flush_ignores_unregistered)
next
  let ?t = "last (frame_points upd now s)"
  assume h: "well_formed s \<and> update upd now s = (invs, None, s') \<and>
    (\<forall>x \<in> set (entitiesToDestroy ?t). \<not> registered ?t x)"
  then have "well_formed ?t"
    using well_formed_frame_points [of s ?t upd now] by simp
  with h have "flush ?t = ?t\<lparr>entitiesToDestroy := []\<rparr>" by (auto intro: flush_unregistered)
  moreover from h have "s' = flush ?t" by (auto dest: update_flush)
  ultimately have s': "s' = ?t\<lparr>entitiesToDestroy := []\<rparr>" by simp
  show "entities s' = entities ?t" by (simp add: s')
  show "systems s' = systems ?t" by (simp add: s')
qed

text \<open>The unknown entity 7 is queued, and a frame of idle systems flushes it.\<close>

theorem removeEntity_unknown_witness:
  "well_formed ex_queued \<and> \<not> registered ex_queued 7 \<and>
   update ex_idle 150 ex_queued =
     ([\<lparr>inv_system = ex_sys, inv_entities = [1],
        inv_ecs = ex_queued\<lparr>delta := 50, start := 150\<rparr>\<rparr>],
      None, ex_ECS\<lparr>delta := 50, start := 150\<rparr>) \<and>
   destroyEntity 7 ex_queued = ex_queued \<and>
   entities (ex_ECS\<lparr>delta := 50, start := 150\<rparr>) = entities ex_queued \<and>
   systems (ex_ECS\<lparr>delta := 50, start := 150\<rparr>) = systems ex_queued"
proof -
  have wf: "well_formed ex_queued"
    by (simp add: ex_queued_def ex_ECS_well_formed)
  have unk: "\<not> registered ex_queued 7"
    by (simp add: ex_queued_def registered_def ex_ECS_def)
  have pts: "frame_points ex_idle 150 ex_queued = [ex_queued\<lparr>delta := 50, start := 150\<rparr>, ex_queued\<lparr>delta := 50, start := 150\<rparr>]"
    by (simp add: frame_points_def ex_queued_def ex_ECS_def ex_idle_def Let_def)
  have upd: "update ex_idle 150 ex_queued =
     ([\<lparr>inv_system = ex_sys, inv_entities = [1],
        inv_ecs = ex_queued\<lparr>delta := 50, start := 150\<rparr>\<rparr>],
      None, ex_ECS\<lparr>delta := 50, start := 150\<rparr>)"
    by (simp add: update_def ex_queued_def ex_ECS_def ex_idle_def flush_def destroyEntity_def
        set_delete_def)
  have q: "\<forall>x \<in> set (entitiesToDestroy (last (frame_points ex_idle 150 ex_queued))).
        \<not> registered (last (frame_points ex_idle 150 ex_queued)) x"
    by (simp add: pts) (simp add: ex_queued_def registered_def ex_ECS_def)
  from removeEntity_unknown [of 7 ex_queued ex_idle 150 _ "ex_ECS\<lparr>delta := 50, start := 150\<rparr>"]
    wf unk upd q
  have "destroyEntity 7 ex_queued = ex_queued"
    and "entities (ex_ECS\<lparr>delta := 50, start := 150\<rparr>) = entities (last (frame_points ex_idle 150 ex_queued))"
    and "systems (ex_ECS\<lparr>delta := 50, start := 150\<rparr>) = systems (last (frame_points ex_idle 150 ex_queued))"
    by blast+
  with wf unk upd show ?thesis by (simp add: pts)
qed

section \<open>The queue is write-only until the flush\<close>

lemma addEntity_queue:
  "addEntity (s\<lparr>entitiesToDestroy := q\<rparr>) =
     (fst (addEntity s), (snd (addEntity s))\<lparr>entitiesToDestroy := q\<rparr>)"
  by (simp add: addEntity_def Let_def)

lemma addComponent_queue:
  "addComponent e c (s\<lparr>entitiesToDestroy := q\<rparr>) =
     (case addComponent e c s of Inl err \<Rightarrow> Inl err
      | Inr s' \<Rightarrow> Inr (s'\<lparr>entitiesToDestroy := q\<rparr>))"
proof (cases "map_of (entities s) e")
  case None
  then show ?thesis by (simp add: addComponent_def getComponents_def)
next
  case (Some cs)
  then have "map_of (entities (s\<lparr>entitiesToDestroy := q\<rparr>)) e = Some cs" by simp
  from addComponent_Inr [OF this] addComponent_Inr [OF Some] show ?thesis by simp
qed

lemma removeComponent_queue:
  "removeComponent e c (s\<lparr>entitiesToDestroy := q\<rparr>) =
     (case removeComponent e c s of Inl err \<Rightarrow> Inl err
      | Inr s' \<Rightarrow> Inr (s'\<lparr>entitiesToDestroy := q\<rparr>))"
proof (cases "map_of (entities s) e")
  case None
  then show ?thesis by (simp add: removeComponent_def getComponents_def)
next
  case (Some cs)
  then have "map_of (entities (s\<lparr>entitiesToDestroy := q\<rparr>)) e = Some cs" by simp
  from removeComponent_Inr [OF this] removeComponent_Inr [OF Some] show ?thesis by simp
qed

lemma getComponents_queue [simp]:
  "getComponents e (s\<lparr>entitiesToDestroy := q\<rparr>) = getComponents e s"
  by (simp add: getComponents_def)

lemma getComponent_queue [simp]:
  "getComponent e t (s\<lparr>entitiesToDestroy := q\<rparr>) = getComponent e t s"
  by (simp add: getComponent_def)

text \<open>
  A system's update cannot read the queue: started with another queue it does the same,
  and appends the same requests.
\<close>

lemma run_prog_queue:
  "run_prog p (s\<lparr>entitiesToDestroy := q\<rparr>) =
     (fst (run_prog p (s\<lparr>entitiesToDestroy := []\<rparr>)),
      (snd (run_prog p (s\<lparr>entitiesToDestroy := []\<rparr>)))
        \<lparr>entitiesToDestroy := q @ entitiesToDestroy (snd (run_prog p (s\<lparr>entitiesToDestroy := []\<rparr>)))\<rparr>)"
proof (induction p arbitrary: s q)
  case Return
  show ?case by simp
next
  case (Throw err)
  show ?case by simp
next
  case (AddEntity k)
  from AddEntity.IH [OF rangeI, where s = "snd (addEntity s)" and q = q]
  show ?case by (simp add: addEntity_queue split_beta)
next
  case (RemoveEntity e k)
  from RemoveEntity.IH [where s = s and q = "q @ [e]"] RemoveEntity.IH [where s = s and q = "[e]"]
  show ?case by (simp add: removeEntity_def)
next
  case (AddComponent e c k)
  show ?case
  proof (cases "addComponent e c s")
    case (Inl err)
    then show ?thesis by (simp add: addComponent_queue)
  next
    case (Inr s')
    with AddComponent.IH [where s = s' and q = q] show ?thesis by (simp add: addComponent_queue)
  qed
next
  case (RemoveComponent e c k)
  show ?case
  proof (cases "removeComponent e c s")
    case (Inl err)
    then show ?thesis by (simp add: removeComponent_queue)
  next
    case (Inr s')
    with RemoveComponent.IH [where s = s' and q = q] show ?thesis by (simp add: removeComponent_queue)
  qed
next
  case (GetComponents e k)
  show ?case
  proof (cases "getComponents e s")
    case (Inl err)
    then show ?thesis by simp
  next
    case (Inr cs)
    with GetComponents.IH [OF rangeI, where s = s and q = q] show ?thesis by simp
  qed
next
  case (GetComponent e t k)
  show ?case
  proof (cases "getComponent e t s")
    case (Inl err)
    then show ?thesis by simp
  next
    case (Inr d)
    with GetComponent.IH [OF rangeI, where s = s and q = q] show ?thesis by simp
  qed
next
  case (GetDelta k)
  from GetDelta.IH [OF rangeI, where s = s and q = q] show ?case by simp
qed

lemma run_systems_queue:
  "snd (run_systems upd ss (s\<lparr>entitiesToDestroy := q\<rparr>)) =
     (fst (snd (run_systems upd ss (s\<lparr>entitiesToDestroy := []\<rparr>))),
      (snd (snd (run_systems upd ss (s\<lparr>entitiesToDestroy := []\<rparr>))))
        \<lparr>entitiesToDestroy :=
           q @ entitiesToDestroy (snd (snd (run_systems upd ss (s\<lparr>entitiesToDestroy := []\<rparr>))))\<rparr>)"
proof (induction ss arbitrary: s q)
  case Nil
  show ?case by simp
next
  case (Cons sy ss)
  show ?case
  proof (cases "map_of (systems s) sy")
    case None
    with Cons.IH [where s = s and q = q] show ?thesis by simp
  next
    case (Some ents)
    let ?p = "upd sy ents"
    obtain r s' where rp: "run_prog ?p (s\<lparr>entitiesToDestroy := []\<rparr>) = (r, s')"
      by (cases "run_prog ?p (s\<lparr>entitiesToDestroy := []\<rparr>)")
    from run_prog_queue [where p = ?p and s = s and q = q] rp
    have rq: "run_prog ?p (s\<lparr>entitiesToDestroy := q\<rparr>)
                = (r, s'\<lparr>entitiesToDestroy := q @ entitiesToDestroy s'\<rparr>)" by simp
    show ?thesis
    proof (cases r)
      case (Some err)
      with rp rq show ?thesis by (simp add: \<open>map_of (systems s) sy = Some ents\<close>)
    next
      case None
      from Cons.IH [where s = s' and q = "q @ entitiesToDestroy s'"]
           Cons.IH [where s = s' and q = "entitiesToDestroy s'"]
      show ?thesis
        by (simp add: Some rp rq None split_beta)
    qed
  qed
qed

lemma flush_cong:
  "set q = set q' \<Longrightarrow>
   flush (s\<lparr>entitiesToDestroy := q\<rparr>) = flush (s\<lparr>entitiesToDestroy := q'\<rparr>)"
  by (simp add: flush_eq)

lemma update_queue_cong:
  assumes "set q = set q'"
  shows "fst (snd (update upd now (s\<lparr>entitiesToDestroy := q\<rparr>)))
           = fst (snd (update upd now (s\<lparr>entitiesToDestroy := q'\<rparr>)))"
    and "fst (snd (update upd now (s\<lparr>entitiesToDestroy := q'\<rparr>))) = None \<Longrightarrow>
         snd (snd (update upd now (s\<lparr>entitiesToDestroy := q\<rparr>)))
           = snd (snd (update upd now (s\<lparr>entitiesToDestroy := q'\<rparr>)))"
proof -
  let ?s1 = "s\<lparr>delta := now - start s, start := now\<rparr>"
  let ?ss = "map fst (systems s)"
  obtain r s2 where r0: "snd (run_systems upd ?ss (?s1\<lparr>entitiesToDestroy := []\<rparr>)) = (r, s2)"
    by (cases "snd (run_systems upd ?ss (?s1\<lparr>entitiesToDestroy := []\<rparr>))")
  have rq: "snd (run_systems upd ?ss (?s1\<lparr>entitiesToDestroy := x\<rparr>))
              = (r, s2\<lparr>entitiesToDestroy := x @ entitiesToDestroy s2\<rparr>)" for x
    using run_systems_queue [where upd = upd and ss = ?ss and s = ?s1 and q = x] r0 by simp
  have u: "snd (update upd now (s\<lparr>entitiesToDestroy := x\<rparr>))
             = (case r of Some err \<Rightarrow> (r, s2\<lparr>entitiesToDestroy := x @ entitiesToDestroy s2\<rparr>)
                | None \<Rightarrow> (None, flush (s2\<lparr>entitiesToDestroy := x @ entitiesToDestroy s2\<rparr>)))" for x
  proof -
    obtain invs where "run_systems upd ?ss (?s1\<lparr>entitiesToDestroy := x\<rparr>)
        = (invs, r, s2\<lparr>entitiesToDestroy := x @ entitiesToDestroy s2\<rparr>)"
      using rq [of x] by (cases "run_systems upd ?ss (?s1\<lparr>entitiesToDestroy := x\<rparr>)") auto
    moreover have sw: "s\<lparr>entitiesToDestroy := x, delta := now - start s, start := now\<rparr>
        = ?s1\<lparr>entitiesToDestroy := x\<rparr>" by (cases s) simp
    have "update upd now (s\<lparr>entitiesToDestroy := x\<rparr>) =
       (case run_systems upd ?ss (?s1\<lparr>entitiesToDestroy := x\<rparr>) of
           (invs, Some err, s2) \<Rightarrow> (invs, Some err, s2)
         | (invs, None, s2) \<Rightarrow> (invs, None, flush s2))"
      by (simp add: update_def Let_def sw)
    ultimately have "update upd now (s\<lparr>entitiesToDestroy := x\<rparr>) =
       (case (invs, r, s2\<lparr>entitiesToDestroy := x @ entitiesToDestroy s2\<rparr>) of
           (invs, Some err, s2) \<Rightarrow> (invs, Some err, s2)
         | (invs, None, s2) \<Rightarrow> (invs, None, flush s2))"
      by (simp only:)
    then show ?thesis
      by (cases r) simp_all
  qed
  show "fst (snd (update upd now (s\<lparr>entitiesToDestroy := q\<rparr>)))
           = fst (snd (update upd now (s\<lparr>entitiesToDestroy := q'\<rparr>)))"
    by (cases r) (simp_all add: u)
  assume "fst (snd (update upd now (s\<lparr>entitiesToDestroy := q'\<rparr>))) = None"
  then have "r = None" by (cases r) (simp_all add: u)
  moreover from assms have "set (q @ entitiesToDestroy s2) = set (q' @ entitiesToDestroy s2)"
    by simp
  ultimately show "snd (snd (update upd now (s\<lparr>entitiesToDestroy := q\<rparr>)))
           = snd (snd (update upd now (s\<lparr>entitiesToDestroy := q'\<rparr>)))"
    using flush_cong [where q = "q @ entitiesToDestroy s2" and q' = "q' @ entitiesToDestroy s2" and s = s2]
    by (simp add: u)
qed

lemma removeEntity_funpow:
  "(removeEntity e ^^ n) s = s\<lparr>entitiesToDestroy := entitiesToDestroy s @ replicate n e\<rparr>"
proof (induction n)
  case 0
  show ?case by simp
next
  case (Suc n)
  then show ?case by (simp add: removeEntity_def replicate_append_same)
qed

section \<open>The frame delta\<close>



lemma flush_clock [simp]: "start (flush s) = start s" "delta (flush s) = delta s"
  by (simp_all add: flush_eq)







section \<open>The calls that a frame makes\<close>

lemma addEntity_keys [simp]: "systems (snd (addEntity s)) = systems s"
  by (simp add: addEntity_def Let_def)



lemma map_of_key:
  "k \<in> fst ` set al \<Longrightarrow> \<exists>v. map_of al k = Some v"
  by (cases "map_of al k") (auto simp: map_of_eq_None_iff)










lemma addComponent_queue_same:
  "addComponent e c s = Inr s' \<Longrightarrow> entitiesToDestroy s' = entitiesToDestroy s"
  by (auto dest!: addComponent_InrD)

lemma removeComponent_queue_same:
  "removeComponent e c s = Inr s' \<Longrightarrow> entitiesToDestroy s' = entitiesToDestroy s"
  by (auto dest!: removeComponent_InrD)



lemma map_of_map_snd:
  "map_of (map (\<lambda>p. (fst p, f (snd p))) al) k = map_option f (map_of al k)"
  by (induction al) auto

lemma membership_flush:
  "membership (flush s) sy = filter (\<lambda>x. x \<notin> set (entitiesToDestroy s)) (membership s sy)"
  by (cases "map_of (systems s) sy") (simp_all add: flush_eq membership_def map_of_map_snd)









section \<open>What the store holds for an entity\<close>

lemma getComponent_stored:
  "getComponent e t s =
     (if \<not> registered s e then Inl (UnknownEntity e)
      else case stored s e t of None \<Rightarrow> Inl (MissingComponent e t) | Some c \<Rightarrow> Inr (data c))"
  by (auto simp: getComponent_cases registered_def stored_def split: option.splits)

lemma holds_addEntity: "holds e t c s \<Longrightarrow> holds e t c (snd (addEntity s))"
  by (auto simp: holds_def addEntity_def Let_def registered_def stored_def update_conv')

lemma holds_removeEntity: "holds e t c s \<Longrightarrow> holds e t c (removeEntity x s)"
  by (simp add: holds_def removeEntity_def registered_def stored_def)

lemma holds_addComponent:
  assumes "holds e t c s" and "addComponent e' c' s = Inr s'" and "\<not> (e' = e \<and> type c' = t)"
  shows "holds e t c s'"
proof -
  from addComponent_InrD [OF assms(2)] obtain cs where cs: "map_of (entities s) e' = Some cs"
    and s': "s' = s\<lparr>entities := AList.update e' (AList.update (type c') c' cs) (entities s),
            systems := map (recompute e' (AList.update (type c') c' cs)) (systems s)\<rparr>" by auto
  from assms(1,3) cs show ?thesis
    by (auto simp: s' holds_def registered_def stored_def update_conv')
qed

lemma holds_removeComponent:
  assumes "holds e t c s" and "removeComponent e' c' s = Inr s'" and "\<not> (e' = e \<and> type c' = t)"
  shows "holds e t c s'"
proof -
  from removeComponent_InrD [OF assms(2)] obtain cs where cs: "map_of (entities s) e' = Some cs"
    and s': "s' = s\<lparr>entities := AList.update e' (AList.delete (type c') cs) (entities s),
            systems := map (recompute e' (AList.delete (type c') cs)) (systems s)\<rparr>" by auto
  from assms(1,3) cs show ?thesis
    by (auto simp: s' holds_def registered_def stored_def update_conv' delete_conv')
qed

lemma holds_systems [simp]: "holds e t c (s\<lparr>systems := ss\<rparr>) = holds e t c s"
  by (simp add: holds_def registered_def stored_def)

lemma holds_clock [simp]: "holds e t c (s\<lparr>delta := d, start := n\<rparr>) = holds e t c s"
  by (simp add: holds_def registered_def stored_def)

lemma holds_addSystem: "holds e t c s \<Longrightarrow> addSystem sy s = Inr s' \<Longrightarrow> holds e t c s'"
  by (auto dest!: addSystem_frame)

lemma holds_removeSystem: "holds e t c s \<Longrightarrow> holds e t c (removeSystem sy s)"
  by (simp add: removeSystem_def)

lemma map_of_filter_keys:
  "map_of (filter (\<lambda>p. fst p \<notin> A) al) k = (if k \<in> A then None else map_of al k)"
  by (induction al) auto

lemma holds_flush: "holds e t c s \<Longrightarrow> holds e t c (flush s)"
  by (auto simp: holds_def flush_eq registered_def stored_def map_of_filter_keys
      split: if_splits)

lemma run_prog_holds:
  "prog_leaves e t p \<Longrightarrow> holds e t c s \<Longrightarrow> holds e t c (snd (run_prog p s))"
proof (induction p arbitrary: s)
  case Return
  then show ?case by simp
next
  case (Throw err)
  then show ?case by simp
next
  case (AddEntity k)
  from AddEntity.prems have "prog_leaves e t (k (fst (addEntity s)))" by simp
  from AddEntity.IH [OF rangeI this holds_addEntity [OF AddEntity.prems(2)]]
  show ?case by (simp add: split_beta)
next
  case (RemoveEntity x k)
  from RemoveEntity.prems have "prog_leaves e t k" by simp
  from RemoveEntity.IH [OF this holds_removeEntity [OF RemoveEntity.prems(2)]]
  show ?case by simp
next
  case (AddComponent x co k)
  show ?case
  proof (cases "addComponent x co s")
    case (Inl err)
    with AddComponent.prems show ?thesis by simp
  next
    case (Inr s')
    from AddComponent.prems have l: "prog_leaves e t k" and n: "\<not> (x = e \<and> type co = t)" by simp_all
    from AddComponent.IH [OF l holds_addComponent [OF AddComponent.prems(2) Inr n]] Inr
    show ?thesis by simp
  qed
next
  case (RemoveComponent x co k)
  show ?case
  proof (cases "removeComponent x co s")
    case (Inl err)
    with RemoveComponent.prems show ?thesis by simp
  next
    case (Inr s')
    from RemoveComponent.prems have l: "prog_leaves e t k" and n: "\<not> (x = e \<and> type co = t)"
      by simp_all
    from RemoveComponent.IH [OF l holds_removeComponent [OF RemoveComponent.prems(2) Inr n]] Inr
    show ?thesis by simp
  qed
next
  case (GetComponents x k)
  show ?case
  proof (cases "getComponents x s")
    case (Inl err)
    with GetComponents.prems show ?thesis by simp
  next
    case (Inr cs)
    from GetComponents.prems have "prog_leaves e t (k cs)" by simp
    from GetComponents.IH [OF rangeI this GetComponents.prems(2)] Inr show ?thesis by simp
  qed
next
  case (GetComponent x t' k)
  show ?case
  proof (cases "getComponent x t' s")
    case (Inl err)
    with GetComponent.prems show ?thesis by simp
  next
    case (Inr d)
    from GetComponent.prems have "prog_leaves e t (k d)" by simp
    from GetComponent.IH [OF rangeI this GetComponent.prems(2)] Inr show ?thesis by simp
  qed
next
  case (GetDelta k)
  from GetDelta.prems have "prog_leaves e t (k (delta s))" by simp
  from GetDelta.IH [OF rangeI this GetDelta.prems(2)] show ?case by simp
qed

lemma run_systems_holds:
  assumes "\<forall>sy ents. prog_leaves e t (upd sy ents)"
  shows "holds e t c s \<Longrightarrow> holds e t c (snd (snd (run_systems upd ss s)))"
proof (induction ss arbitrary: s)
  case Nil
  then show ?case by simp
next
  case (Cons sy ss)
  show ?case
  proof (cases "map_of (systems s) sy")
    case None
    with Cons show ?thesis by simp
  next
    case (Some ents)
    obtain r s1 where rp: "run_prog (upd sy ents) s = (r, s1)" by (cases "run_prog (upd sy ents) s")
    from assms have "prog_leaves e t (upd sy ents)" by blast
    from run_prog_holds [OF this Cons.prems] rp have h1: "holds e t c s1" by simp
    show ?thesis
    proof (cases r)
      case None
      with Cons.IH [OF h1] show ?thesis by (simp add: Some rp split_beta)
    next
      case (Some err)
      with h1 show ?thesis by (simp add: \<open>map_of (systems s) sy = Some ents\<close> rp)
    qed
  qed
qed

lemma update_holds:
  assumes "\<forall>sy ents. prog_leaves e t (upd sy ents)" and "holds e t c s"
  shows "holds e t c (snd (snd (update upd now s)))"
proof -
  let ?s1 = "s\<lparr>delta := now - start s, start := now\<rparr>"
  obtain invs r s2 where rs: "run_systems upd (map fst (systems ?s1)) ?s1 = (invs, r, s2)"
    by (cases "run_systems upd (map fst (systems ?s1)) ?s1") auto
  from assms(2) have "holds e t c ?s1" by simp
  from run_systems_holds [OF assms(1) this, of "map fst (systems ?s1)"] rs
  have h2: "holds e t c s2" by simp
  with rs show ?thesis
    by (cases r) (simp_all add: update_def Let_def holds_flush)
qed

lemma exec_holds:
  assumes "call_leaves e t call" and "holds e t c s"
  shows "holds e t c (exec call s)"
proof (cases call)
  case CallAddEntity
  with assms show ?thesis by (simp add: holds_addEntity)
next
  case (CallRemoveEntity x)
  with assms show ?thesis by (simp add: holds_removeEntity)
next
  case (CallAddComponent x co)
  with assms show ?thesis
    by (cases "addComponent x co s") (auto intro: holds_addComponent)
next
  case (CallRemoveComponent x co)
  with assms show ?thesis
    by (cases "removeComponent x co s") (auto intro: holds_removeComponent)
next
  case (CallGetComponents x)
  with assms show ?thesis by simp
next
  case (CallGetComponent x t')
  with assms show ?thesis by simp
next
  case (CallAddSystem sy)
  with assms show ?thesis
    by (cases "addSystem sy s") (auto intro: holds_addSystem)
next
  case (CallRemoveSystem sy)
  with assms show ?thesis by (simp add: holds_removeSystem)
next
  case (CallUpdate upd now)
  with assms update_holds [of e t upd c s now] show ?thesis by simp
qed

lemma exec_all_holds:
  "\<forall>call \<in> set calls. call_leaves e t call \<Longrightarrow> holds e t c s \<Longrightarrow> holds e t c (exec_all calls s)"
  unfolding exec_all_def by (induction calls arbitrary: s) (simp_all add: exec_holds)

lemma well_formed_registered_less:
  "well_formed s \<Longrightarrow> registered s e \<Longrightarrow> e < nextEntityID s"
  by (auto simp: well_formed_alt registered_iff)

text \<open>
  C3. On a registered entity \<open>e\<close>, \<open>addComponent(e, c)\<close> succeeds and a \<open>getComponent\<close>
  for \<open>c\<close>'s type then returns \<open>c\<close>'s payload; and it still does after any calls of
  the interface, frames included, in which neither the application nor a system adds or
  removes a component of that type on \<open>e\<close>, so long as \<open>e\<close> is still registered, that is,
  has not been destroyed.
\<close>

theorem getComponent_after_addComponent:
  assumes "well_formed s" and "registered s e"
    and "\<forall>call \<in> set calls. call_leaves e (type c) call"
    and "registered (exec_all calls (exec (CallAddComponent e c) s)) e"
  shows "(\<exists>s1. addComponent e c s = Inr s1 \<and> getComponent e (type c) s1 = Inr (data c)) \<and>
         getComponent e (type c) (exec_all calls (exec (CallAddComponent e c) s)) = Inr (data c)"
proof -
  from assms(2) obtain cs where cs: "map_of (entities s) e = Some cs"
    by (auto simp: registered_def)
  let ?s1 = "s\<lparr>entities := AList.update e (AList.update (type c) c cs) (entities s),
            systems := map (recompute e (AList.update (type c) c cs)) (systems s)\<rparr>"
  from addComponent_Inr [OF cs] have s1: "addComponent e c s = Inr ?s1" .
  have st: "registered ?s1 e \<and> stored ?s1 e (type c) = Some c"
    by (simp add: registered_def stored_def update_conv')
  then have g1: "getComponent e (type c) ?s1 = Inr (data c)"
    by (simp add: getComponent_stored)
  from st well_formed_registered_less [OF assms(1,2)] have "holds e (type c) c ?s1"
    by (simp add: holds_def)
  from exec_all_holds [OF assms(3) this] s1
  have "holds e (type c) c (exec_all calls (exec (CallAddComponent e c) s))" by simp
  with assms(4)
  have "getComponent e (type c) (exec_all calls (exec (CallAddComponent e c) s)) = Inr (data c)"
    by (simp add: holds_def getComponent_stored)
  with s1 g1 show ?thesis by blast
qed

text \<open>Entity 0 of the example engine gets a tag, other calls follow, and the tag is read back.\<close>

theorem getComponent_after_addComponent_witness:
  "well_formed ex_ECS \<and> registered ex_ECS 0 \<and>
   call_leaves 0 1 (CallAddEntity :: nat call) \<and> call_leaves 0 1 (CallAddComponent 1 ex_pos) \<and>
   call_leaves 0 1 (CallUpdate ex_idle 150) \<and> call_leaves 0 1 (CallRemoveComponent 0 ex_pos) \<and>
   registered (exec_all ex_calls (exec (CallAddComponent 0 ex_tag) ex_ECS)) 0 \<and>
   getComponent 0 1 (exec_all ex_calls (exec (CallAddComponent 0 ex_tag) ex_ECS)) = Inr 20"
proof -
  have t: "type ex_tag = 1" and d: "data ex_tag = 20" by (simp_all add: ex_tag_def)
  have r: "registered ex_ECS 0" by (simp add: registered_def ex_ECS_def)
  have l: "call_leaves 0 1 (CallAddEntity :: nat call)" "call_leaves 0 1 (CallAddComponent 1 ex_pos)"
    "call_leaves 0 1 (CallUpdate ex_idle 150)" "call_leaves 0 1 (CallRemoveComponent 0 ex_pos)"
    by (simp_all add: ex_idle_def ex_pos_def)
  then have la: "\<forall>call \<in> set ex_calls. call_leaves 0 (type ex_tag) call"
    by (simp add: ex_calls_def t)
  have e: "registered (exec_all ex_calls (exec (CallAddComponent 0 ex_tag) ex_ECS)) 0"
    by (simp add: exec_all_def ex_calls_def ex_ECS_def registered_def addComponent_def
        removeComponent_def getComponents_def updateEntitySystems_def addEntity_def Let_def
        update_def ex_idle_def flush_def ex_sys_def ex_pos_def ex_tag_def set_add_def
        set_delete_def)
  from getComponent_after_addComponent [OF ex_ECS_well_formed r la e]
  have "getComponent 0 1 (exec_all ex_calls (exec (CallAddComponent 0 ex_tag) ex_ECS)) = Inr 20"
    by (simp add: t d)
  with ex_ECS_well_formed r l e show ?thesis by blast
qed

section \<open>Deferred destruction\<close>

lemma map_of_map_recompute:
  "map_of (map (recompute e cs) al) k =
     map_option (\<lambda>ents. if hasAllRequired (requiredComponents k) cs
                         then set_add e ents else set_delete e ents) (map_of al k)"
  by (induction al) (auto simp: recompute_def)

lemma membership_recompute:
  "membership (s\<lparr>entities := E, systems := map (recompute e cs) (systems s)\<rparr>) sy =
     (case map_of (systems s) sy of
        None \<Rightarrow> []
      | Some ents \<Rightarrow> if hasAllRequired (requiredComponents sy) cs
                     then set_add e ents else set_delete e ents)"
  by (simp add: membership_def map_of_map_recompute split: option.splits)

lemma qualifies_iff:
  "qualifies s sy e \<longleftrightarrow>
     (\<exists>cs. map_of (entities s) e = Some cs \<and> hasAllRequired (requiredComponents sy) cs)"
  by (auto simp: qualifies_def registered_def componentTypes_def hasAllRequired_iff)












lemma flush_counter [simp]: "nextEntityID (flush s) = nextEntityID s"
  by (simp add: flush_eq)





section \<open>Membership sets\<close>

lemma qualifies_systems [simp]: "qualifies (s\<lparr>systems := ss\<rparr>) sy e = qualifies s sy e"
  by (simp add: qualifies_iff)

lemma membership_updateEntitySystems:
  assumes "map_of (entities s) e = Some cs" and "updateEntitySystems e s = Inr s'"
  shows "set (membership s' sy) =
           (if sy \<in> fst ` set (systems s)
            then (if qualifies s sy e then insert e (set (membership s sy))
                  else set (membership s sy) - {e})
            else {})"
proof -
  from assms have s': "s' = s\<lparr>systems := map (recompute e cs) (systems s)\<rparr>"
    by (simp add: updateEntitySystems_Inr)
  have "s\<lparr>systems := map (recompute e cs) (systems s)\<rparr>
          = s\<lparr>entities := entities s, systems := map (recompute e cs) (systems s)\<rparr>" by simp
  then have m: "membership s' sy =
     (case map_of (systems s) sy of
        None \<Rightarrow> []
      | Some ents \<Rightarrow> if hasAllRequired (requiredComponents sy) cs
                     then set_add e ents else set_delete e ents)"
    unfolding s' by (simp only: membership_recompute)
  have q: "qualifies s sy e \<longleftrightarrow> hasAllRequired (requiredComponents sy) cs"
    using assms(1) by (simp add: qualifies_iff)
  show ?thesis
  proof (cases "map_of (systems s) sy")
    case None
    then have "sy \<notin> fst ` set (systems s)" by (simp add: map_of_eq_None_iff)
    with None m show ?thesis by simp
  next
    case (Some ents)
    then have "sy \<in> fst ` set (systems s)" by (metis domI dom_map_of_conv_image_fst)
    with Some m q show ?thesis by (simp add: membership_def)
  qed
qed

lemma addSystem_loop_membership:
  assumes "set es \<subseteq> fst ` set (entities s)" and "addSystem_loop es s = Inr s'"
  shows "set (membership s' sy) =
           (if sy \<in> fst ` set (systems s)
            then (set (membership s sy) - {e \<in> set es. \<not> qualifies s sy e})
                   \<union> {e \<in> set es. qualifies s sy e}
            else {})"
  using assms
proof (induction es arbitrary: s)
  case Nil
  show ?case
  proof (cases "map_of (systems s) sy")
    case None
    then have "sy \<notin> fst ` set (systems s)" by (simp add: map_of_eq_None_iff)
    with None Nil show ?thesis by (simp add: membership_def)
  next
    case (Some ents)
    then have "sy \<in> fst ` set (systems s)" by (metis domI dom_map_of_conv_image_fst)
    with Nil show ?thesis by simp
  qed
next
  case (Cons e es)
  from Cons.prems(1) obtain cs where cs: "map_of (entities s) e = Some cs"
    using map_of_key [of e "entities s"] by auto
  from Cons.prems(2) obtain s1 where s1: "updateEntitySystems e s = Inr s1"
    and r: "addSystem_loop es s1 = Inr s'" by (auto split: sum.splits)
  from updateEntitySystems_frame [OF s1] obtain ss where f: "s1 = s\<lparr>systems := ss\<rparr>" ..
  then have ent: "entities s1 = entities s" by simp
  from f have q: "qualifies s1 sy x = qualifies s sy x" for x by simp
  from updateEntitySystems_keys [OF s1] have keys: "fst ` set (systems s1) = fst ` set (systems s)"
    by (metis list.set_map)
  from Cons.prems(1) ent have "set es \<subseteq> fst ` set (entities s1)" by simp
  from Cons.IH [OF this r] membership_updateEntitySystems [OF cs s1, of sy]
  show ?case
    by (auto simp: q keys)
qed

lemma update_keys_present:
  "fst ` set (AList.update k v al) = insert k (fst ` set al)"
  by (simp add: dom_update)

lemma addSystem_exact:
  assumes wf: "well_formed s" and a: "addSystem sy s = Inr s'"
    and key: "sy' \<in> fst ` set (systems s')"
  shows "set (membership s' sy') = {e. qualifies s' sy' e}"
proof -
  let ?s0 = "s\<lparr>systems := AList.update sy [] (systems s)\<rparr>"
  from a have l: "addSystem_loop (map fst (entities s)) ?s0 = Inr s'" by (simp add: addSystem_def)
  from addSystem_frame [OF a] obtain ss where f: "s' = s\<lparr>systems := ss\<rparr>" ..
  then have q: "qualifies s' sy' x = qualifies s sy' x" for x by simp
  have q0: "qualifies ?s0 sy' x = qualifies s sy' x" for x by simp
  from addSystem_loop_keys [OF l] key have key0: "sy' \<in> fst ` set (systems ?s0)"
    by (metis list.set_map)
  have "set (map fst (entities s)) \<subseteq> fst ` set (entities ?s0)" by simp
  from addSystem_loop_membership [OF this l, of sy'] key0
  have m: "set (membership s' sy') =
      (set (membership ?s0 sy') - {e \<in> fst ` set (entities s). \<not> qualifies s sy' e})
        \<union> {e \<in> fst ` set (entities s). qualifies s sy' e}"
    by (simp add: q0)
  have sub: "set (membership ?s0 sy') \<subseteq> fst ` set (entities s)"
  proof (cases "sy' = sy")
    case True
    then show ?thesis by (simp add: membership_def update_conv')
  next
    case False
    show ?thesis
    proof (cases "map_of (systems s) sy'")
      case None
      with False show ?thesis by (simp add: membership_def update_conv')
    next
      case (Some ents)
      then have "(sy', ents) \<in> set (systems s)" by (rule map_of_SomeD)
      moreover from wf have "\<forall>p \<in> set (systems s). set (snd p) \<subseteq> fst ` set (entities s)"
        by (simp add: well_formed_alt)
      ultimately have "set (snd (sy', ents)) \<subseteq> fst ` set (entities s)" by blast
      then have "set ents \<subseteq> fst ` set (entities s)" by simp
      with False Some show ?thesis by (simp add: membership_def update_conv')
    qed
  qed
  have "qualifies s sy' e \<Longrightarrow> e \<in> fst ` set (entities s)" for e
    by (simp add: qualifies_def registered_iff)
  with m sub show ?thesis by (auto simp: q)
qed

lemma hasAllRequired_Nil: "hasAllRequired req [] \<longleftrightarrow> req = []"
  by (cases req) simp_all

lemma membership_okI:
  assumes "well_formed s"
    and "\<And>sy e. sy \<in> fst ` set (systems s) \<Longrightarrow> e \<in> set (membership s sy) \<Longrightarrow> qualifies s sy e"
    and "\<And>sy e. sy \<in> fst ` set (systems s) \<Longrightarrow> requiredComponents sy \<noteq> [] \<Longrightarrow>
           qualifies s sy e \<Longrightarrow> e \<in> set (membership s sy)"
  shows "membership_ok s"
  unfolding membership_ok_def using assms by blast

lemma membership_ok_wf: "membership_ok s \<Longrightarrow> well_formed s"
  unfolding membership_ok_def by blast

lemma membership_ok_sound:
  "membership_ok s \<Longrightarrow> sy \<in> fst ` set (systems s) \<Longrightarrow> e \<in> set (membership s sy) \<Longrightarrow>
   qualifies s sy e"
  unfolding membership_ok_def by blast

lemma membership_ok_complete:
  "membership_ok s \<Longrightarrow> sy \<in> fst ` set (systems s) \<Longrightarrow> requiredComponents sy \<noteq> [] \<Longrightarrow>
   qualifies s sy e \<Longrightarrow> e \<in> set (membership s sy)"
  unfolding membership_ok_def by blast

lemma membership_registered:
  assumes "well_formed s" and "e \<in> set (membership s sy)"
  shows "registered s e \<and> sy \<in> fst ` set (systems s)"
proof -
  from assms(2) obtain ents where m: "map_of (systems s) sy = Some ents" and e: "e \<in> set ents"
    by (cases "map_of (systems s) sy") (auto simp: membership_def)
  then have p: "(sy, ents) \<in> set (systems s)" by (auto dest: map_of_SomeD)
  with assms(1) have "\<forall>x \<in> set (snd (sy, ents)). registered s x"
    unfolding well_formed_def by blast
  with e have "registered s e" by simp
  moreover from p have "sy \<in> fst ` set (systems s)" by (rule rev_image_eqI) simp
  ultimately show ?thesis ..
qed

lemma membership_ok_addEntity:
  assumes "membership_ok s"
  shows "membership_ok (snd (addEntity s))"
proof (rule membership_okI)
  let ?n = "nextEntityID s" and ?s' = "snd (addEntity s)"
  from assms have wf: "well_formed s" by (rule membership_ok_wf)
  then show "well_formed ?s'" by (rule well_formed_addEntity)
  from wf have nreg: "\<not> registered s ?n"
    using well_formed_registered_less [of s ?n] by auto
  have m: "membership ?s' sy = membership s sy" for sy
    by (simp add: membership_def)
  have q: "qualifies ?s' sy e \<longleftrightarrow>
      (if e = ?n then requiredComponents sy = [] else qualifies s sy e)" for sy e
    by (simp add: qualifies_iff addEntity_def Let_def update_conv' hasAllRequired_Nil)
  {
    fix sy e assume k: "sy \<in> fst ` set (systems ?s')" and e: "e \<in> set (membership ?s' sy)"
    from e have e': "e \<in> set (membership s sy)" by (simp add: m)
    with membership_registered [OF wf] nreg have "e \<noteq> ?n" by blast
    moreover from k e' assms have "qualifies s sy e" by (simp add: membership_ok_sound)
    ultimately show "qualifies ?s' sy e" by (simp add: q)
  }
  fix sy e assume k: "sy \<in> fst ` set (systems ?s')" and r: "requiredComponents sy \<noteq> []"
    and "qualifies ?s' sy e"
  with q [of sy e] have "qualifies s sy e" by (simp split: if_splits)
  with assms k r show "e \<in> set (membership ?s' sy)"
    by (simp add: m membership_ok_complete)
qed

lemma qualifies_queue [simp]: "qualifies (s\<lparr>entitiesToDestroy := q\<rparr>) = qualifies s"
  by (intro ext) (simp add: qualifies_iff)

lemma qualifies_clock [simp]: "qualifies (s\<lparr>delta := d, start := n\<rparr>) = qualifies s"
  by (intro ext) (simp add: qualifies_iff)

lemma membership_ok_removeEntity:
  assumes "membership_ok s"
  shows "membership_ok (removeEntity x s)"
proof -
  have "membership_ok (removeEntity x s) = membership_ok s"
    unfolding membership_ok_def
    by (simp add: removeEntity_def membership_def)
  with assms show ?thesis by simp
qed

lemma membership_ok_recompute:
  assumes ok: "membership_ok s" and x: "map_of (entities s) x = Some cs0"
  shows "membership_ok (s\<lparr>entities := AList.update x cs' (entities s),
                            systems := map (recompute x cs') (systems s)\<rparr>)"
proof (rule membership_okI)
  let ?s' = "s\<lparr>entities := AList.update x cs' (entities s),
               systems := map (recompute x cs') (systems s)\<rparr>"
  from ok have wf: "well_formed s" by (rule membership_ok_wf)
  show "well_formed ?s'" by (rule well_formed_recompute [OF wf x])
  have keys: "fst ` set (systems ?s') = fst ` set (systems s)"
    by (metis ECS.select_convs(1) ECS.surjective ECS.update_convs(1,2) list.set_map
        map_fst_recompute)
  have q: "qualifies ?s' sy e \<longleftrightarrow>
      (if e = x then hasAllRequired (requiredComponents sy) cs' else qualifies s sy e)" for sy e
    by (simp add: qualifies_iff update_conv')
  have m: "set (membership ?s' sy) =
      (if hasAllRequired (requiredComponents sy) cs' then insert x (set (membership s sy))
       else set (membership s sy) - {x})" if "sy \<in> fst ` set (systems s)" for sy
  proof -
    from that map_of_key obtain ents where ents: "map_of (systems s) sy = Some ents" by metis
    have "membership ?s' sy =
      (if hasAllRequired (requiredComponents sy) cs' then set_add x ents else set_delete x ents)"
      by (simp add: membership_recompute ents)
    moreover have "membership s sy = ents" by (simp add: membership_def ents)
    ultimately show ?thesis by simp
  qed
  {
    fix sy e assume k: "sy \<in> fst ` set (systems ?s')" and e: "e \<in> set (membership ?s' sy)"
    from k keys have k': "sy \<in> fst ` set (systems s)" by simp
    show "qualifies ?s' sy e"
    proof (cases "e = x")
      case True
      with e m [OF k'] have "hasAllRequired (requiredComponents sy) cs'"
        by (cases "hasAllRequired (requiredComponents sy) cs'") simp_all
      with True q [of sy e] show ?thesis by simp
    next
      case False
      with e m [OF k'] have "e \<in> set (membership s sy)"
        by (cases "hasAllRequired (requiredComponents sy) cs'") simp_all
      from membership_ok_sound [OF ok k' this] False q [of sy e] show ?thesis by simp
    qed
  }
  fix sy e assume k: "sy \<in> fst ` set (systems ?s')" and r: "requiredComponents sy \<noteq> []"
    and qe: "qualifies ?s' sy e"
  from k keys have k': "sy \<in> fst ` set (systems s)" by simp
  show "e \<in> set (membership ?s' sy)"
  proof (cases "e = x")
    case True
    with qe q [of sy e] have "hasAllRequired (requiredComponents sy) cs'" by simp
    with True show ?thesis by (simp add: m [OF k'])
  next
    case False
    with qe q [of sy e] have "qualifies s sy e" by simp
    from membership_ok_complete [OF ok k' r this] False show ?thesis
      by (cases "hasAllRequired (requiredComponents sy) cs'") (simp_all add: m [OF k'])
  qed
qed

lemma membership_ok_preserved: "preserved membership_ok"
proof -
  have 3: "membership_ok s'" if "membership_ok s" "addComponent x c s = Inr s'"
    for x c and s s' :: "'a ECS"
    using that by (auto dest!: addComponent_InrD intro: membership_ok_recompute)
  have 4: "membership_ok s'" if "membership_ok s" "removeComponent x c s = Inr s'"
    for x c and s s' :: "'a ECS"
    using that by (auto dest!: removeComponent_InrD intro: membership_ok_recompute)
  from membership_ok_addEntity membership_ok_removeEntity 3 4 show ?thesis
    unfolding preserved_def by blast
qed

lemma membership_ok_addSystem:
  assumes "membership_ok s" and "addSystem sy s = Inr s'"
  shows "membership_ok s'"
proof (rule membership_okI)
  from assms have wf: "well_formed s" by (simp add: membership_ok_wf)
  show "well_formed s'" by (rule well_formed_addSystem [OF wf assms(2)])
  fix sy' e assume k: "sy' \<in> fst ` set (systems s')"
  from addSystem_exact [OF wf assms(2) k]
  show "e \<in> set (membership s' sy') \<Longrightarrow> qualifies s' sy' e"
    and "qualifies s' sy' e \<Longrightarrow> e \<in> set (membership s' sy')" by auto
qed

lemma membership_removeSystem:
  "sy' \<in> fst ` set (systems (removeSystem sy s)) \<Longrightarrow>
   membership (removeSystem sy s) sy' = membership s sy'"
  by (auto simp: removeSystem_def membership_def dom_delete)

lemma membership_ok_removeSystem:
  assumes "membership_ok s"
  shows "membership_ok (removeSystem sy s)"
proof (rule membership_okI)
  from assms show "well_formed (removeSystem sy s)"
    by (simp add: membership_ok_wf well_formed_removeSystem)
  have q: "qualifies (removeSystem sy s) sy' e = qualifies s sy' e" for sy' e
    by (simp add: removeSystem_def)
  have k: "sy' \<in> fst ` set (systems s)" if "sy' \<in> fst ` set (systems (removeSystem sy s))" for sy'
    using that by (auto simp: removeSystem_def dom_delete)
  {
    fix sy' e assume a: "sy' \<in> fst ` set (systems (removeSystem sy s))"
      and "e \<in> set (membership (removeSystem sy s) sy')"
    with membership_ok_sound [OF assms k [OF a], of e]
    show "qualifies (removeSystem sy s) sy' e" by (simp add: q membership_removeSystem)
  }
  fix sy' e assume a: "sy' \<in> fst ` set (systems (removeSystem sy s))"
    and "requiredComponents sy' \<noteq> []" "qualifies (removeSystem sy s) sy' e"
  with membership_ok_complete [OF assms k [OF a], of e]
  show "e \<in> set (membership (removeSystem sy s) sy')" by (simp add: q membership_removeSystem)
qed

lemma membership_ok_clock:
  assumes "membership_ok s"
  shows "membership_ok (s\<lparr>delta := d, start := n\<rparr>)"
proof -
  have "membership_ok (s\<lparr>delta := d, start := n\<rparr>) = membership_ok s"
    unfolding membership_ok_def by (simp add: membership_def)
  with assms show ?thesis by simp
qed

lemma qualifies_flush:
  "qualifies (flush s) sy e \<longleftrightarrow> qualifies s sy e \<and> e \<notin> set (entitiesToDestroy s)"
  by (auto simp: qualifies_iff flush_eq map_of_filter_keys)

lemma flush_keys: "fst ` set (systems (flush s)) = fst ` set (systems s)"
  by (simp add: flush_eq image_image)

lemma membership_ok_flush:
  assumes "membership_ok s"
  shows "membership_ok (flush s)"
proof (rule membership_okI)
  from assms show "well_formed (flush s)" by (simp add: membership_ok_wf well_formed_flush)
  {
    fix sy e assume "sy \<in> fst ` set (systems (flush s))" "e \<in> set (membership (flush s) sy)"
    with membership_ok_sound [OF assms, of sy e]
    show "qualifies (flush s) sy e" by (simp add: flush_keys qualifies_flush membership_flush)
  }
  fix sy e assume "sy \<in> fst ` set (systems (flush s))" "requiredComponents sy \<noteq> []"
    "qualifies (flush s) sy e"
  with membership_ok_complete [OF assms, of sy e]
  show "e \<in> set (membership (flush s) sy)"
    by (simp add: flush_keys qualifies_flush membership_flush)
qed

lemma membership_ok_preserved_all: "preserved_all membership_ok"
  unfolding preserved_all_def
  using membership_ok_preserved membership_ok_addSystem membership_ok_removeSystem
    membership_ok_clock membership_ok_flush
  by blast

lemma membership_ok_new: "membership_ok (new_ECS now eid ct)"
  by (simp add: membership_ok_def well_formed_def new_ECS_def)

lemma membership_ok_reachable: "membership_ok (exec_all calls (new_ECS now eid ct))"
  by (rule exec_all_preserved [OF membership_ok_preserved_all membership_ok_new])

text \<open>
  What holds of the membership sets in every engine that the interface can produce from
  a new one is \<open>membership_ok\<close> (lemma \<open>membership_ok_reachable\<close>): a set holds registered,
  qualifying entities only, and all of them if its system requires some component type.
  Right after \<open>addSystem\<close> every set is exact (lemma \<open>addSystem_exact\<close>). What is missing
  is the recomputation in \<open>addEntity\<close>: a new entity has no component and so qualifies
  for a system that requires none, but is not put into its set.
\<close>

lemma addSystem_again:
  assumes wf: "well_formed s" and key: "sy \<in> fst ` set (systems s)"
    and a: "addSystem sy s = Inr s'"
  shows "map fst (systems s') = map fst (systems s)"
    and "set (membership s' sy) = {e. qualifies s sy e}"
proof -
  from key have "sy \<in> set (map fst (systems s))" by simp
  then have "map fst (AList.update sy [] (systems s)) = map fst (systems s)"
    by (simp add: update_keys)
  with addSystem_keys [OF a] show k: "map fst (systems s') = map fst (systems s)" by simp
  then have "fst ` set (systems s') = fst ` set (systems s)" by (metis list.set_map)
  with key have "sy \<in> fst ` set (systems s')" by simp
  from addSystem_exact [OF wf a this] addSystem_frame [OF a]
  show "set (membership s' sy) = {e. qualifies s sy e}" by auto
qed

lemma addSystem_again_same:
  assumes "membership_ok s" and "sy \<in> fst ` set (systems s)"
    and "requiredComponents sy \<noteq> []" and "addSystem sy s = Inr s'"
  shows "set (membership s' sy) = set (membership s sy)"
proof -
  from assms(1) have wf: "well_formed s" by (rule membership_ok_wf)
  from addSystem_again(2) [OF wf assms(2,4)]
  have "set (membership s' sy) = {e. qualifies s sy e}" .
  moreover from membership_ok_sound [OF assms(1,2)] membership_ok_complete [OF assms(1,2,3)]
  have "set (membership s sy) = {e. qualifies s sy e}" by blast
  ultimately show ?thesis by simp
qed

text \<open>
  C1: after \<open>addComponent\<close>, a membership set should hold exactly the registered entities
  that have all the component types its system requires. Here the system \<open>ex_all\<close>, which
  requires none, is registered, then entities 0 and 1 are created, then entity 1 gets a
  position. After that call entity 0 is registered and has all of the (no) required
  types, but the set of \<open>ex_all\<close> is \<open>[1]\<close>.
\<close>

theorem membership_misses_new_entity:
  "ex_late =
     \<lparr>systems = [(ex_all, [1])], entities = [(0, []), (1, [(0, ex_pos)])],
      start = 0, delta = 0, nextEntityID = 2, nextComponentType = 0,
      entitiesToDestroy = []\<rparr> \<and>
   registered ex_late 0 \<and> componentTypes ex_late 0 = {} \<and> requiredComponents ex_all = [] \<and>
   qualifies ex_late ex_all 0 \<and> membership ex_late ex_all = [1]"
proof -
  have s: "ex_late =
     \<lparr>systems = [(ex_all, [1])], entities = [(0, []), (1, [(0, ex_pos)])],
      start = 0, delta = 0, nextEntityID = 2, nextComponentType = 0,
      entitiesToDestroy = []\<rparr>"
    by (simp add: ex_late_def exec_all_def new_ECS_def addSystem_def addEntity_def Let_def
        addComponent_def getComponents_def updateEntitySystems_def ex_all_def ex_pos_def
        set_add_def)
  show ?thesis
    unfolding s
    by (simp add: registered_def componentTypes_def qualifies_def membership_def ex_all_def)
qed

text \<open>
  C10: \<open>addSystem\<close> on a registered system should leave its membership set as it was.
  The system \<open>ex_all\<close> is registered and entity 0 created; the set of \<open>ex_all\<close> is
  empty. Registering \<open>ex_all\<close> again keeps it the only key but makes its set \<open>[0]\<close>.
\<close>

theorem addSystem_again_changes_membership:
  "membership (exec_all [CallAddSystem ex_all, CallAddEntity] (new_ECS 0 0 0 :: nat ECS)) ex_all = [] \<and>
   membership (exec_all [CallAddSystem ex_all, CallAddEntity, CallAddSystem ex_all]
                 (new_ECS 0 0 0 :: nat ECS)) ex_all = [0] \<and>
   map fst (systems (exec_all [CallAddSystem ex_all, CallAddEntity, CallAddSystem ex_all]
                 (new_ECS 0 0 0 :: nat ECS))) = [ex_all]"
  by (simp add: exec_all_def new_ECS_def addSystem_def addEntity_def Let_def
        getComponents_def updateEntitySystems_def ex_all_def set_add_def membership_def)

section \<open>Repeated requests\<close>

lemma same_requestsE:
  assumes "same_requests s t"
  obtains q where "t = s\<lparr>entitiesToDestroy := q\<rparr>" and "set q = set (entitiesToDestroy s)"
  using assms unfolding same_requests_def by blast

lemma same_requestsI:
  "set q = set q' \<Longrightarrow> same_requests (s\<lparr>entitiesToDestroy := q\<rparr>) (s\<lparr>entitiesToDestroy := q'\<rparr>)"
  by (simp add: same_requests_def)

lemma same_requests_refl [simp]: "same_requests s s"
  by (simp add: same_requests_def)

lemma same_requests_removeEntity:
  "e \<in> set (entitiesToDestroy s) \<Longrightarrow> same_requests (removeEntity e s) s"
  by (auto simp: same_requests_def removeEntity_def)

lemma same_requests_flush: "same_requests s t \<Longrightarrow> flush s = flush t"
proof (erule same_requestsE)
  fix q assume t: "t = s\<lparr>entitiesToDestroy := q\<rparr>" and q: "set q = set (entitiesToDestroy s)"
  have "s = s\<lparr>entitiesToDestroy := entitiesToDestroy s\<rparr>" by simp
  then have "flush s = flush (s\<lparr>entitiesToDestroy := entitiesToDestroy s\<rparr>)" by simp
  also have "\<dots> = flush (s\<lparr>entitiesToDestroy := q\<rparr>)"
    by (rule flush_cong) (simp add: q)
  finally show ?thesis by (simp add: t)
qed

lemma same_requests_run_prog:
  assumes "same_requests s t"
  shows "fst (run_prog p s) = fst (run_prog p t) \<and>
         same_requests (snd (run_prog p s)) (snd (run_prog p t))"
proof (rule same_requestsE [OF assms])
  fix q assume t: "t = s\<lparr>entitiesToDestroy := q\<rparr>" and q: "set q = set (entitiesToDestroy s)"
  let ?r = "run_prog p (s\<lparr>entitiesToDestroy := []\<rparr>)"
  have a: "run_prog p (s\<lparr>entitiesToDestroy := x\<rparr>) =
      (fst ?r, (snd ?r)\<lparr>entitiesToDestroy := x @ entitiesToDestroy (snd ?r)\<rparr>)" for x
    by (rule run_prog_queue)
  from a [of "entitiesToDestroy s"]
  have rs: "run_prog p s =
      (fst ?r, (snd ?r)\<lparr>entitiesToDestroy := entitiesToDestroy s @ entitiesToDestroy (snd ?r)\<rparr>)"
    by simp
  from a [of q] t
  have rt: "run_prog p t =
      (fst ?r, (snd ?r)\<lparr>entitiesToDestroy := q @ entitiesToDestroy (snd ?r)\<rparr>)"
    by simp
  have "set (entitiesToDestroy s @ entitiesToDestroy (snd ?r))
          = set (q @ entitiesToDestroy (snd ?r))" by (simp add: q)
  from same_requestsI [OF this, of "snd ?r"] show ?thesis
    by (simp only: rs rt fst_conv snd_conv simp_thms)
qed

lemma same_requests_run_systems:
  assumes "same_requests s t"
  shows "fst (snd (run_systems upd ss s)) = fst (snd (run_systems upd ss t)) \<and>
         same_requests (snd (snd (run_systems upd ss s))) (snd (snd (run_systems upd ss t)))"
proof (rule same_requestsE [OF assms])
  fix q assume t: "t = s\<lparr>entitiesToDestroy := q\<rparr>" and q: "set q = set (entitiesToDestroy s)"
  let ?r = "snd (run_systems upd ss (s\<lparr>entitiesToDestroy := []\<rparr>))"
  have a: "snd (run_systems upd ss (s\<lparr>entitiesToDestroy := x\<rparr>)) =
      (fst ?r, (snd ?r)\<lparr>entitiesToDestroy := x @ entitiesToDestroy (snd ?r)\<rparr>)" for x
    by (rule run_systems_queue)
  from a [of "entitiesToDestroy s"]
  have rs: "snd (run_systems upd ss s) =
      (fst ?r, (snd ?r)\<lparr>entitiesToDestroy := entitiesToDestroy s @ entitiesToDestroy (snd ?r)\<rparr>)"
    by simp
  from a [of q] t
  have rt: "snd (run_systems upd ss t) =
      (fst ?r, (snd ?r)\<lparr>entitiesToDestroy := q @ entitiesToDestroy (snd ?r)\<rparr>)"
    by simp
  have "set (entitiesToDestroy s @ entitiesToDestroy (snd ?r))
          = set (q @ entitiesToDestroy (snd ?r))" by (simp add: q)
  from same_requestsI [OF this, of "snd ?r"] show ?thesis
    by (simp only: rs rt fst_conv snd_conv simp_thms)
qed

lemma same_requests_update:
  assumes "same_requests s t"
  shows "fst (snd (update upd now s)) = fst (snd (update upd now t)) \<and>
         same_requests (snd (snd (update upd now s))) (snd (snd (update upd now t))) \<and>
         (fst (snd (update upd now t)) = None \<longrightarrow>
            snd (snd (update upd now s)) = snd (snd (update upd now t)))"
proof (rule same_requestsE [OF assms])
  fix q assume t: "t = s\<lparr>entitiesToDestroy := q\<rparr>" and q: "set q = set (entitiesToDestroy s)"
  have s: "s = s\<lparr>entitiesToDestroy := entitiesToDestroy s\<rparr>" by simp
  from q have q': "set (entitiesToDestroy s) = set q" by simp
  note c = update_queue_cong [OF q', of upd now s]
  from c(1) have 1: "fst (snd (update upd now s)) = fst (snd (update upd now t))"
    by (simp add: t)
  have 3: "snd (snd (update upd now s)) = snd (snd (update upd now t))"
    if "fst (snd (update upd now t)) = None"
    using c(2) that by (simp add: t)
  have 2: "same_requests (snd (snd (update upd now s))) (snd (snd (update upd now t)))"
  proof (cases "fst (snd (update upd now t))")
    case None
    from 3 [OF this] show ?thesis by simp
  next
    case (Some err)
    let ?s1 = "s\<lparr>delta := now - start s, start := now\<rparr>"
    have t1: "t\<lparr>delta := now - start t, start := now\<rparr> = ?s1\<lparr>entitiesToDestroy := q\<rparr>"
      unfolding t by (cases s) simp
    have "same_requests ?s1 (?s1\<lparr>entitiesToDestroy := q\<rparr>)"
      using same_requestsI [of "entitiesToDestroy s" q ?s1] q by simp
    from same_requests_run_systems [OF this, of upd "map fst (systems s)"]
    have rs: "fst (snd (run_systems upd (map fst (systems s)) ?s1))
                = fst (snd (run_systems upd (map fst (systems s)) (?s1\<lparr>entitiesToDestroy := q\<rparr>)))"
      "same_requests (snd (snd (run_systems upd (map fst (systems s)) ?s1)))
         (snd (snd (run_systems upd (map fst (systems s)) (?s1\<lparr>entitiesToDestroy := q\<rparr>))))"
      by simp_all
    have us: "snd (update upd now s) = snd (run_systems upd (map fst (systems s)) ?s1)"
      if "fst (snd (run_systems upd (map fst (systems s)) ?s1)) \<noteq> None"
      using that by (auto simp: update_def Let_def split: prod.splits option.splits)
    have ut: "snd (update upd now t)
         = snd (run_systems upd (map fst (systems s)) (?s1\<lparr>entitiesToDestroy := q\<rparr>))"
      if "fst (snd (run_systems upd (map fst (systems s)) (?s1\<lparr>entitiesToDestroy := q\<rparr>))) \<noteq> None"
    proof -
      have "update upd now t =
         (case run_systems upd (map fst (systems s)) (?s1\<lparr>entitiesToDestroy := q\<rparr>) of
            (invs, Some err, s2) \<Rightarrow> (invs, Some err, s2)
          | (invs, None, s2) \<Rightarrow> (invs, None, flush s2))"
        unfolding update_def Let_def t1 by (simp add: t)
      with that show ?thesis by (auto split: prod.splits option.splits)
    qed
    have ft: "fst (snd (update upd now t))
        = fst (snd (run_systems upd (map fst (systems s)) (?s1\<lparr>entitiesToDestroy := q\<rparr>)))"
    proof -
      have "update upd now t =
         (case run_systems upd (map fst (systems s)) (?s1\<lparr>entitiesToDestroy := q\<rparr>) of
            (invs, Some err, s2) \<Rightarrow> (invs, Some err, s2)
          | (invs, None, s2) \<Rightarrow> (invs, None, flush s2))"
        unfolding update_def Let_def t1 by (simp add: t)
      then show ?thesis by (auto split: prod.splits option.splits)
    qed
    from Some ft have n: "fst (snd (run_systems upd (map fst (systems s)) (?s1\<lparr>entitiesToDestroy := q\<rparr>))) \<noteq> None"
      by simp
    with rs(1) have n': "fst (snd (run_systems upd (map fst (systems s)) ?s1)) \<noteq> None" by simp
    from rs(2) show ?thesis unfolding us [OF n'] ut [OF n] .
  qed
  from 1 2 3 show ?thesis by blast
qed

lemma queue_systems_swap:
  "s\<lparr>entitiesToDestroy := q, systems := ss\<rparr> = s\<lparr>systems := ss, entitiesToDestroy := q\<rparr>"
  by (cases s) simp

lemma updateEntitySystems_loop_queue:
  "updateEntitySystems_loop e (s\<lparr>entitiesToDestroy := q\<rparr>) ss = updateEntitySystems_loop e s ss"
  by (induction ss) (auto split: sum.splits)

lemma updateEntitySystems_queue:
  "updateEntitySystems e (s\<lparr>entitiesToDestroy := q\<rparr>) =
     (case updateEntitySystems e s of Inl err \<Rightarrow> Inl err
      | Inr s' \<Rightarrow> Inr (s'\<lparr>entitiesToDestroy := q\<rparr>))"
  by (simp add: updateEntitySystems_def updateEntitySystems_loop_queue split: sum.splits)

lemma addSystem_loop_queue:
  "addSystem_loop es (s\<lparr>entitiesToDestroy := q\<rparr>) =
     (case addSystem_loop es s of Inl err \<Rightarrow> Inl err
      | Inr s' \<Rightarrow> Inr (s'\<lparr>entitiesToDestroy := q\<rparr>))"
proof (induction es arbitrary: s)
  case Nil
  show ?case by simp
next
  case (Cons e es)
  show ?case
  proof (cases "updateEntitySystems e s")
    case (Inl err)
    then show ?thesis by (simp add: updateEntitySystems_queue)
  next
    case (Inr s1)
    with Cons.IH [of s1] show ?thesis by (simp add: updateEntitySystems_queue)
  qed
qed

lemma addSystem_queue:
  "addSystem sy (s\<lparr>entitiesToDestroy := q\<rparr>) =
     (case addSystem sy s of Inl err \<Rightarrow> Inl err
      | Inr s' \<Rightarrow> Inr (s'\<lparr>entitiesToDestroy := q\<rparr>))"
proof -
  show ?thesis
    unfolding addSystem_def
    using addSystem_loop_queue [of "map fst (entities s)" q "s\<lparr>systems := AList.update sy [] (systems s)\<rparr>"]
    by (simp add: queue_systems_swap)
qed

lemma same_requests_queue:
  "same_requests s t \<Longrightarrow> same_requests (s\<lparr>entitiesToDestroy := q\<rparr>) (t\<lparr>entitiesToDestroy := q\<rparr>)"
  by (erule same_requestsE) (simp add: same_requests_def)

lemma same_requests_exec:
  assumes "same_requests s t"
  shows "same_requests (exec c s) (exec c t)"
proof (rule same_requestsE [OF assms])
  fix q assume t: "t = s\<lparr>entitiesToDestroy := q\<rparr>" and q: "set q = set (entitiesToDestroy s)"
  have keep: "same_requests s' (s'\<lparr>entitiesToDestroy := q\<rparr>)"
    if "entitiesToDestroy s' = entitiesToDestroy s" for s' :: "'a ECS"
    using that q by (simp add: same_requests_def)
  show ?thesis
  proof (cases c)
    case CallAddEntity
    have "entitiesToDestroy (snd (addEntity s)) = entitiesToDestroy s"
      by (simp add: addEntity_def Let_def)
    from keep [OF this] CallAddEntity show ?thesis by (simp add: t addEntity_queue)
  next
    case (CallRemoveEntity x)
    with q show ?thesis by (simp add: t removeEntity_def same_requests_def)
  next
    case (CallAddComponent x co)
    show ?thesis
    proof (cases "addComponent x co s")
      case (Inl err)
      with CallAddComponent assms show ?thesis by (simp add: t addComponent_queue)
    next
      case (Inr s')
      from keep [OF addComponent_queue_same [OF Inr]] Inr CallAddComponent show ?thesis
        by (simp add: t addComponent_queue)
    qed
  next
    case (CallRemoveComponent x co)
    show ?thesis
    proof (cases "removeComponent x co s")
      case (Inl err)
      with CallRemoveComponent assms show ?thesis by (simp add: t removeComponent_queue)
    next
      case (Inr s')
      from keep [OF removeComponent_queue_same [OF Inr]] Inr CallRemoveComponent show ?thesis
        by (simp add: t removeComponent_queue)
    qed
  next
    case (CallGetComponents x)
    with assms show ?thesis by simp
  next
    case (CallGetComponent x ty)
    with assms show ?thesis by simp
  next
    case (CallAddSystem sy)
    show ?thesis
    proof (cases "addSystem sy s")
      case (Inl err)
      with CallAddSystem assms show ?thesis by (simp add: t addSystem_queue)
    next
      case (Inr s')
      from addSystem_frame [OF Inr] have "entitiesToDestroy s' = entitiesToDestroy s" by auto
      from keep [OF this] Inr CallAddSystem show ?thesis
        by (simp add: t addSystem_queue)
    qed
  next
    case (CallRemoveSystem sy)
    have "entitiesToDestroy (removeSystem sy s) = entitiesToDestroy s"
      by (simp add: removeSystem_def)
    from keep [OF this] CallRemoveSystem show ?thesis
      by (simp add: t removeSystem_def queue_systems_swap)
  next
    case (CallUpdate upd now)
    with same_requests_update [OF assms, of upd now] show ?thesis by simp
  qed
qed

lemma same_requests_exec_all:
  "same_requests s t \<Longrightarrow> same_requests (exec_all cs s) (exec_all cs t)"
  unfolding exec_all_def by (induction cs arbitrary: s t) (simp_all add: same_requests_exec)

text \<open>
  C6. Calling \<open>removeEntity\<close> on the same entity more than once before the flush gives,
  after the flush, the engine that one call gives. First, \<open>n \<ge> 1\<close> calls in a row: the
  flush, and a whole frame whatever the systems do, end as after one call. Second, a
  further call when the entity is already queued: made by the application, followed by
  any calls and a frame, that frame ends as without the further call and, when no system
  throws, in the same engine (registry, component stores, membership sets, empty queue
  and all); made by a system in a frame, the rest of its update and the later systems
  run to the same outcome as without it, and the flush leaves the same engine.
\<close>

theorem removeEntity_idempotent:
  "(0 < n \<longrightarrow>
      flush ((removeEntity e ^^ n) s) = flush (removeEntity e s) \<and>
      fst (snd (update upd now ((removeEntity e ^^ n) s)))
        = fst (snd (update upd now (removeEntity e s))) \<and>
      (fst (snd (update upd now (removeEntity e s))) = None \<longrightarrow>
         snd (snd (update upd now ((removeEntity e ^^ n) s)))
           = snd (snd (update upd now (removeEntity e s))))) \<and>
   (e \<in> set (entitiesToDestroy s) \<longrightarrow>
      fst (snd (update upd now (exec_all cs (removeEntity e s))))
        = fst (snd (update upd now (exec_all cs s))) \<and>
      (fst (snd (update upd now (exec_all cs s))) = None \<longrightarrow>
         snd (snd (update upd now (exec_all cs (removeEntity e s))))
           = snd (snd (update upd now (exec_all cs s)))) \<and>
      fst (run_prog (RemoveEntity e p) s) = fst (run_prog p s) \<and>
      fst (snd (run_systems upd ss (snd (run_prog (RemoveEntity e p) s))))
        = fst (snd (run_systems upd ss (snd (run_prog p s)))) \<and>
      flush (snd (snd (run_systems upd ss (snd (run_prog (RemoveEntity e p) s)))))
        = flush (snd (snd (run_systems upd ss (snd (run_prog p s))))))"
proof (intro conjI impI)
  assume n: "0 < n"
  let ?q = "entitiesToDestroy s @ replicate n e" and ?q' = "entitiesToDestroy s @ [e]"
  from n have eq: "set ?q = set ?q'" by auto
  have a: "(removeEntity e ^^ n) s = s\<lparr>entitiesToDestroy := ?q\<rparr>"
    by (rule removeEntity_funpow)
  have b: "removeEntity e s = s\<lparr>entitiesToDestroy := ?q'\<rparr>"
    by (simp add: removeEntity_def)
  show "flush ((removeEntity e ^^ n) s) = flush (removeEntity e s)"
    unfolding a b by (rule flush_cong [OF eq])
  show "fst (snd (update upd now ((removeEntity e ^^ n) s)))
        = fst (snd (update upd now (removeEntity e s)))"
    unfolding a b by (rule update_queue_cong(1) [OF eq])
  assume "fst (snd (update upd now (removeEntity e s))) = None"
  then show "snd (snd (update upd now ((removeEntity e ^^ n) s)))
           = snd (snd (update upd now (removeEntity e s)))"
    unfolding a b by (rule update_queue_cong(2) [OF eq])
next
  assume q: "e \<in> set (entitiesToDestroy s)"
  then have r: "same_requests (removeEntity e s) s" by (rule same_requests_removeEntity)
  note x = same_requests_update [OF same_requests_exec_all [OF r, of cs], of upd now]
  from x show "fst (snd (update upd now (exec_all cs (removeEntity e s))))
        = fst (snd (update upd now (exec_all cs s)))" by blast
  from same_requests_run_prog [OF r, of p]
  have y: "fst (run_prog p (removeEntity e s)) = fst (run_prog p s)"
    "same_requests (snd (run_prog p (removeEntity e s))) (snd (run_prog p s))" by blast+
  from y(1) show "fst (run_prog (RemoveEntity e p) s) = fst (run_prog p s)" by simp
  from y(2) have "same_requests (snd (run_prog (RemoveEntity e p) s)) (snd (run_prog p s))"
    by simp
  note z = same_requests_run_systems [OF this, of upd ss]
  from z show "fst (snd (run_systems upd ss (snd (run_prog (RemoveEntity e p) s))))
        = fst (snd (run_systems upd ss (snd (run_prog p s))))" by blast
  from z show "flush (snd (snd (run_systems upd ss (snd (run_prog (RemoveEntity e p) s)))))
        = flush (snd (snd (run_systems upd ss (snd (run_prog p s)))))"
    by (blast intro: same_requests_flush)
  assume "fst (snd (update upd now (exec_all cs s))) = None"
  with x show "snd (snd (update upd now (exec_all cs (removeEntity e s))))
           = snd (snd (update upd now (exec_all cs s)))" by blast
qed

text \<open>
  Entity 1 of the example engine, queued three times or once, or queued again before
  another entity is created, and a frame of idle systems.
\<close>

theorem removeEntity_idempotent_witness:
  "(0::nat) < 3 \<and> 1 \<in> set (entitiesToDestroy (removeEntity 1 ex_ECS)) \<and>
   fst (snd (update ex_idle 150 (removeEntity 1 ex_ECS))) = None \<and>
   snd (snd (update ex_idle 150 ((removeEntity 1 ^^ 3) ex_ECS)))
     = snd (snd (update ex_idle 150 (removeEntity 1 ex_ECS))) \<and>
   snd (snd (update ex_idle 150 (removeEntity 1 ex_ECS)))
     = ex_ECS\<lparr>systems := [(ex_sys, [])], entities := [(0, [(0, ex_pos)])],
              start := 150, delta := 50\<rparr> \<and>
   fst (snd (update ex_idle 150 (exec_all [CallAddEntity] (removeEntity 1 ex_ECS)))) = None \<and>
   snd (snd (update ex_idle 150 (exec_all [CallAddEntity] (removeEntity 1 (removeEntity 1 ex_ECS)))))
     = snd (snd (update ex_idle 150 (exec_all [CallAddEntity] (removeEntity 1 ex_ECS))))"
proof -
  have u: "update ex_idle 150 (removeEntity 1 ex_ECS) =
     ([\<lparr>inv_system = ex_sys, inv_entities = [1],
        inv_ecs = ex_ECS\<lparr>delta := 50, start := 150, entitiesToDestroy := [1]\<rparr>\<rparr>],
      None,
      ex_ECS\<lparr>systems := [(ex_sys, [])], entities := [(0, [(0, ex_pos)])],
              start := 150, delta := 50\<rparr>)"
    by (simp add: update_def removeEntity_def ex_ECS_def ex_idle_def flush_def destroyEntity_def
        set_delete_def)
  then have n: "fst (snd (update ex_idle 150 (removeEntity 1 ex_ECS))) = None" by simp
  have q: "1 \<in> set (entitiesToDestroy (removeEntity 1 ex_ECS))" by (simp add: removeEntity_def)
  have m: "fst (snd (update ex_idle 150 (exec_all [CallAddEntity] (removeEntity 1 ex_ECS)))) = None"
    by (simp add: update_def Let_def exec_all_def addEntity_def removeEntity_def ex_ECS_def
        ex_idle_def)
  have l: "(0::nat) < 3" by simp
  from removeEntity_idempotent [of 3 1 ex_ECS ex_idle 150] l n
  have a: "snd (snd (update ex_idle 150 ((removeEntity 1 ^^ 3) ex_ECS)))
     = snd (snd (update ex_idle 150 (removeEntity 1 ex_ECS)))" by blast
  from removeEntity_idempotent [of _ 1 "removeEntity 1 ex_ECS" ex_idle 150 "[CallAddEntity]"] q m
  have b: "snd (snd (update ex_idle 150 (exec_all [CallAddEntity] (removeEntity 1 (removeEntity 1 ex_ECS)))))
     = snd (snd (update ex_idle 150 (exec_all [CallAddEntity] (removeEntity 1 ex_ECS))))" by blast
  from l q n a b m u show ?thesis by simp
qed

end
